theory Spec2Isabelle
  imports Complex_Main "HOL-Library.Multiset" "HOL-Library.Signed_Division"
begin

section \<open>JavaScript primitives used by the pages\<close>

text \<open>
  Array read \<^verbatim>\<open>xs[i]\<close>: JavaScript does not throw on an index outside the array, it
  yields \<^verbatim>\<open>undefined\<close>, which is \<open>None\<close> here. Indices are JavaScript numbers; the
  pages only ever store integers in them, so they are \<open>int\<close>.
\<close>

definition js_index :: "'a list \<Rightarrow> int \<Rightarrow> 'a option" where
  "js_index xs i = (if 0 \<le> i \<and> i < int (length xs) then Some (xs ! nat i) else None)"

text \<open>
  The remainder operator \<^verbatim>\<open>a % n\<close> on integers truncates towards zero (the sign of the
  result is the sign of \<open>a\<close>); \<open>smod\<close> is that operation. Every use below is guarded
  by a non-empty list, so \<open>n\<close> is never \<open>0\<close> there.
\<close>

definition js_rem :: "int \<Rightarrow> int \<Rightarrow> int" where
  "js_rem a n = a smod n"

text \<open>\<^verbatim>\<open>s.slice(0, n)\<close> and \<^verbatim>\<open>xs.slice(0, n)\<close> for a non-negative \<open>n\<close>.\<close>

definition slice0 :: "nat \<Rightarrow> 'a list \<Rightarrow> 'a list" where
  "slice0 n xs = take n xs"

text \<open>
  \<^verbatim>\<open>s.split(sep)\<close> for a one-character separator: the pieces between the separators,
  empty pieces included; the empty string splits into one empty piece.
\<close>

fun split :: "char \<Rightarrow> string \<Rightarrow> string list" where
  "split sep [] = [[]]"
| "split sep (c # cs) =
     (if c = sep then [] # split sep cs
      else (case split sep cs of
              [] \<Rightarrow> [[c]]
            | w # ws \<Rightarrow> (c # w) # ws))"

text \<open>
  A destructured piece \<^verbatim>\<open>const [a, b, c] = parts\<close> interpolated into a template
  literal: a missing piece is \<^verbatim>\<open>undefined\<close> and prints as that word.
\<close>

definition piece :: "string list \<Rightarrow> int \<Rightarrow> string" where
  "piece parts k = (case js_index parts k of Some s \<Rightarrow> s | None \<Rightarrow> ''undefined'')"

text \<open>
  A promise settles in one of two ways. Every network call of the pages is awaited
  inside \<^verbatim>\<open>try\<close>, so a rejection (transport error, non-2xx status, a throw while
  decoding) reaches the \<^verbatim>\<open>catch\<close> block of the caller.
\<close>

datatype 'a settled = Resolved 'a | Rejected

section \<open>shuffle (Mars.tsx and Home, the same text twice)\<close>

text \<open>
  \<^verbatim>\<open>Math.floor(Math.random() * (i + 1))\<close>, for a draw \<open>r\<close> of \<^verbatim>\<open>Math.random()\<close>.
  The draw is a number in \<open>[0, 1)\<close>; it is a real here.
\<close>

definition rand_index :: "real \<Rightarrow> nat \<Rightarrow> nat" where
  "rand_index r i = nat \<lfloor>r * real (i + 1)\<rfloor>"

text \<open>
  \<^verbatim>\<open>[a[i], a[j]] = [a[j], a[i]]\<close>: both reads happen before both writes.
\<close>

definition swap :: "nat \<Rightarrow> nat \<Rightarrow> 'a list \<Rightarrow> 'a list" where
  "swap i j a = a[i := a ! j, j := a ! i]"

text \<open>
  \<^verbatim>\<open>for (let i = a.length - 1; i > 0; i--)\<close>. The loop draws once per iteration;
  \<open>rnd i\<close> is the draw made in the iteration with index \<open>i\<close>.
\<close>

fun shuffle_loop :: "(nat \<Rightarrow> real) \<Rightarrow> nat \<Rightarrow> 'a list \<Rightarrow> 'a list" where
  "shuffle_loop rnd 0 a = a"
| "shuffle_loop rnd (Suc k) a =
     shuffle_loop rnd k (swap (Suc k) (rand_index (rnd (Suc k)) (Suc k)) a)"

definition shuffle :: "(nat \<Rightarrow> real) \<Rightarrow> 'a list \<Rightarrow> 'a list" where
  "shuffle rnd arr = shuffle_loop rnd (length arr - 1) arr"

text \<open>\<^verbatim>\<open>pickN(arr, n) = shuffle(arr).slice(0, n)\<close>\<close>

definition pickN :: "(nat \<Rightarrow> real) \<Rightarrow> 'a list \<Rightarrow> nat \<Rightarrow> 'a list" where
  "pickN rnd arr n = slice0 n (shuffle rnd arr)"

subsection \<open>The same function over a store of arrays\<close>

text \<open>
  JavaScript arrays are objects passed by reference. To say that \<^verbatim>\<open>shuffle\<close> leaves
  its argument alone, arrays live in a store: a reference is a position in the store,
  \<^verbatim>\<open>[...arr]\<close> allocates a new array holding the elements of \<open>arr\<close>, and the
  assignments of the loop write to the array behind the reference \<open>a\<close>.
\<close>

type_synonym 'a store = "'a list list"

definition spread_copy :: "nat \<Rightarrow> 'a store \<Rightarrow> nat \<times> 'a store" where
  "spread_copy arr h = (length h, h @ [h ! arr])"

definition swap_ref :: "nat \<Rightarrow> nat \<Rightarrow> nat \<Rightarrow> 'a store \<Rightarrow> 'a store" where
  "swap_ref a i j h = h[a := (h ! a)[i := h ! a ! j, j := h ! a ! i]]"

fun shuffle_loop_ref :: "(nat \<Rightarrow> real) \<Rightarrow> nat \<Rightarrow> nat \<Rightarrow> 'a store \<Rightarrow> 'a store" where
  "shuffle_loop_ref rnd 0 a h = h"
| "shuffle_loop_ref rnd (Suc k) a h =
     shuffle_loop_ref rnd k a (swap_ref a (Suc k) (rand_index (rnd (Suc k)) (Suc k)) h)"

definition shuffle_ref :: "(nat \<Rightarrow> real) \<Rightarrow> nat \<Rightarrow> 'a store \<Rightarrow> nat \<times> 'a store" where
  "shuffle_ref rnd arr h =
     (case spread_copy arr h of
        (a, h1) \<Rightarrow> (a, shuffle_loop_ref rnd (length (h1 ! a) - 1) a h1))"

section \<open>Mars page\<close>

record photo =
  photo_id :: int
  img_src :: string
  camera_name :: string

datatype rover = Curiosity | Opportunity | Spirit

record params =
  sol :: int
  camera :: string
  rover :: rover

text \<open>
  The component's state hooks and the ref \<^verbatim>\<open>requestIdRef\<close>. The ref holds a
  JavaScript number that only \<^verbatim>\<open>++\<close> changes; it counts invocations and is a
  natural number here (\<^verbatim>\<open>++\<close> is exact below \<open>2^53\<close>). The query parameters, the
  fourth state hook, are kept with the debounce below, the only code that reads them.
\<close>

record mars_state =
  photos :: "photo list"
  selected :: "int option"
  loading :: bool
  err :: string
  requestId :: nat

definition mars_error_message :: string where
  "mars_error_message =
     ''Impossible de r'' @ [CHR 0xC3, CHR 0xA9] @ ''cup'' @ [CHR 0xC3, CHR 0xA9]
     @ ''rer les photos pour ces param'' @ [CHR 0xC3, CHR 0xA8] @ ''tres.''"

definition mars_init :: mars_state where
  "mars_init = \<lparr>photos = [], selected = None, loading = False, err = '''', requestId = 0\<rparr>"

text \<open>
  \<^verbatim>\<open>currentPhoto = selected != null ? photos[selected] : photos[0]\<close>
\<close>

definition currentPhoto :: "mars_state \<Rightarrow> photo option" where
  "currentPhoto s =
     (case selected s of Some i \<Rightarrow> js_index (photos s) i | None \<Rightarrow> js_index (photos s) 0)"

text \<open>
  What \<^verbatim>\<open>fetchPhotos\<close> resolved to: the code asks \<^verbatim>\<open>Array.isArray(fetched)\<close> and
  takes the empty list otherwise.
\<close>

datatype fetched = IsArray "photo list" | NotArray

definition fetched_list :: "fetched \<Rightarrow> photo list" where
  "fetched_list f = (case f of IsArray l \<Rightarrow> l | NotArray \<Rightarrow> [])"

text \<open>
  \<^verbatim>\<open>loadPhotos\<close> up to its \<^verbatim>\<open>await\<close>: it takes the next tag, sets the loading
  flag and clears the error string. The result is the tag the invocation keeps
  in its closure (the constant \<^verbatim>\<open>id\<close> of the source), and the state.
\<close>

definition loadPhotos_call :: "mars_state \<Rightarrow> nat \<times> mars_state" where
  "loadPhotos_call s =
     (let tag = requestId s + 1
      in (tag, s\<lparr>requestId := tag, loading := True, err := ''''\<rparr>))"

text \<open>
  \<^verbatim>\<open>loadPhotos\<close> from the moment its network call settles, for the invocation
  tagged \<open>tag\<close>: the \<^verbatim>\<open>try\<close> body after the \<^verbatim>\<open>await\<close>, the \<^verbatim>\<open>catch\<close> block, and
  \<^verbatim>\<open>finally\<close>, which runs after either, also after their early \<^verbatim>\<open>return\<close>.
\<close>

definition loadPhotos_settle :: "nat \<Rightarrow> fetched settled \<Rightarrow> mars_state \<Rightarrow> mars_state" where
  "loadPhotos_settle tag r s =
     (let s1 =
        (case r of
           Resolved f \<Rightarrow>
             if requestId s \<noteq> tag then s
             else (let list = fetched_list f
                   in s\<lparr>photos := list, selected := (if list \<noteq> [] then Some 0 else None)\<rparr>)
         | Rejected \<Rightarrow>
             if requestId s \<noteq> tag then s
             else s\<lparr>err := mars_error_message\<rparr>)
      in if requestId s1 = tag then s1\<lparr>loading := False\<rparr> else s1)"

text \<open>
  A history of the loader: an invocation, or the settling of the network call of an
  earlier invocation, named by its tag. \<open>issued\<close> lists the tags handed out along a
  history, \<open>run\<close> is the state after it.
\<close>

datatype event = Invoke | Settle nat "fetched settled"

fun step :: "event \<Rightarrow> mars_state \<Rightarrow> mars_state" where
  "step Invoke s = snd (loadPhotos_call s)"
| "step (Settle tag r) s = loadPhotos_settle tag r s"

fun run :: "event list \<Rightarrow> mars_state \<Rightarrow> mars_state" where
  "run [] s = s"
| "run (e # es) s = run es (step e s)"

fun issued :: "event list \<Rightarrow> mars_state \<Rightarrow> nat list" where
  "issued [] s = []"
| "issued (Invoke # es) s = fst (loadPhotos_call s) # issued es (step Invoke s)"
| "issued (Settle tag r # es) s = issued es (step (Settle tag r) s)"

text \<open>\<^verbatim>\<open>shuffleOrder = () => setPhotos((p) => shuffle(p))\<close>\<close>

definition shuffleOrder :: "(nat \<Rightarrow> real) \<Rightarrow> mars_state \<Rightarrow> mars_state" where
  "shuffleOrder rnd s = s\<lparr>photos := shuffle rnd (photos s)\<rparr>"

subsection \<open>Lightbox navigation\<close>

datatype key = ArrowLeft | ArrowRight | Escape | OtherKey

text \<open>
  The \<^verbatim>\<open>keydown\<close> handler. The updater functions read the length of the list of the
  render that installed the handler; the effect is re-installed whenever
  \<^verbatim>\<open>photos.length\<close> changes, so that is the current length.
\<close>

definition onKey :: "key \<Rightarrow> mars_state \<Rightarrow> mars_state" where
  "onKey k s =
     (if photos s = [] \<or> selected s = None then s
      else (let n = int (length (photos s)) in
        case k of
          ArrowLeft \<Rightarrow>
            s\<lparr>selected := (case selected s of None \<Rightarrow> None | Some i \<Rightarrow> Some (js_rem (i - 1 + n) n))\<rparr>
        | ArrowRight \<Rightarrow>
            s\<lparr>selected := (case selected s of None \<Rightarrow> None | Some i \<Rightarrow> Some (js_rem (i + 1) n))\<rparr>
        | Escape \<Rightarrow> s\<lparr>selected := None\<rparr>
        | OtherKey \<Rightarrow> s))"

text \<open>
  The lightbox and its two arrow buttons are rendered only under
  \<^verbatim>\<open>selected != null && photos[selected]\<close>; a click can only happen then.
\<close>

definition lightbox_open :: "mars_state \<Rightarrow> bool" where
  "lightbox_open s = (case selected s of None \<Rightarrow> False | Some i \<Rightarrow> js_index (photos s) i \<noteq> None)"

definition lightbox_prev :: "mars_state \<Rightarrow> mars_state" where
  "lightbox_prev s =
     (if \<not> lightbox_open s then s
      else (let n = int (length (photos s)) in
        s\<lparr>selected := (case selected s of None \<Rightarrow> None | Some i \<Rightarrow> Some (js_rem (i - 1 + n) n))\<rparr>))"

definition lightbox_next :: "mars_state \<Rightarrow> mars_state" where
  "lightbox_next s =
     (if \<not> lightbox_open s then s
      else (let n = int (length (photos s)) in
        s\<lparr>selected := (case selected s of None \<Rightarrow> None | Some i \<Rightarrow> Some (js_rem (i + 1) n))\<rparr>))"

text \<open>
  The hero block: \<^verbatim>\<open>loading ? skeleton : currentPhoto ? figure : empty-state text\<close>.
  \<open>RenderError\<close> stands for a render that throws (reading a property of
  \<^verbatim>\<open>undefined\<close>); the Mars hero has no such branch.
\<close>

datatype 'a hero = Skeleton | Hero 'a | EmptyState | RenderError

definition mars_hero :: "mars_state \<Rightarrow> photo hero" where
  "mars_hero s =
     (if loading s then Skeleton
      else (case currentPhoto s of Some p \<Rightarrow> Hero p | None \<Rightarrow> EmptyState))"

subsection \<open>Debounced auto-load\<close>

text \<open>
  \<^verbatim>\<open>useEffect(() => { const t = setTimeout(() => loadPhotos(params), 500);
               return () => clearTimeout(t); }, [params.rover, params.camera, params.sol])\<close>

  Time is a clock in milliseconds. \<open>timers\<close> is the browser's table of pending
  timeouts: each has the id \<^verbatim>\<open>setTimeout\<close> returned, the time it is due and the
  \<open>params\<close> its callback closes over. The timeouts are independent of each other: one
  leaves the table when it fires or when \<^verbatim>\<open>clearTimeout\<close> is called with its id, in
  no other way. \<open>effect_timer\<close> is the id \<^verbatim>\<open>t\<close> the cleanup function of the last
  effect closes over. \<open>fetches\<close> logs the calls \<^verbatim>\<open>loadPhotos(params)\<close> made by the
  callbacks, with the time of each; \<open>cleared\<close> logs, for every pending timeout a
  \<^verbatim>\<open>clearTimeout\<close> removed from the table, the time of the call and the time the
  timeout was due.
\<close>

record debounce =
  cur :: params
  timers :: "(nat \<times> nat \<times> params) list"
  next_id :: nat
  effect_timer :: "nat option"
  fetches :: "(nat \<times> params) list"
  cleared :: "(nat \<times> nat) list"

text \<open>
  \<^verbatim>\<open>setTimeout(() => loadPhotos(p), delay)\<close> called at time \<open>t\<close>: a new entry of the
  table under a new id, which is returned.
\<close>

definition setTimeout :: "nat \<Rightarrow> nat \<Rightarrow> params \<Rightarrow> debounce \<Rightarrow> nat \<times> debounce" where
  "setTimeout t delay p s =
     (next_id s,
      s\<lparr>timers := timers s @ [(next_id s, t + delay, p)], next_id := next_id s + 1\<rparr>)"

text \<open>
  \<^verbatim>\<open>clearTimeout(i)\<close> called at time \<open>t\<close>: the pending timeout with that id leaves the
  table; when there is none (it has fired already) nothing happens.
\<close>

definition clearTimeout :: "nat \<Rightarrow> nat \<Rightarrow> debounce \<Rightarrow> debounce" where
  "clearTimeout t i s =
     s\<lparr>timers := filter (\<lambda>(j, due, p). j \<noteq> i) (timers s),
       cleared := cleared s @ map (\<lambda>(j, due, p). (t, due)) (filter (\<lambda>(j, due, p). j = i) (timers s))\<rparr>"

text \<open>
  The clock reaches \<open>t\<close>: every timeout due by then has left the table and run its
  callback, the earlier due first.
\<close>

definition elapse :: "nat \<Rightarrow> debounce \<Rightarrow> debounce" where
  "elapse t s =
     s\<lparr>timers := filter (\<lambda>(j, due, p). \<not> due \<le> t) (timers s),
       fetches := fetches s
         @ map (\<lambda>(j, due, p). (due, p))
             (sort_key (\<lambda>(j, due, p). due) (filter (\<lambda>(j, due, p). due \<le> t) (timers s)))\<rparr>"

text \<open>The body of the effect, run at time \<open>t\<close> in a render whose parameters are \<open>p\<close>.\<close>

definition effect :: "nat \<Rightarrow> params \<Rightarrow> debounce \<Rightarrow> debounce" where
  "effect t p s = (case setTimeout t 500 p s of (i, s') \<Rightarrow> s'\<lparr>effect_timer := Some i\<rparr>)"

text \<open>The cleanup function the last effect returned: \<^verbatim>\<open>clearTimeout(t)\<close>.\<close>

definition cleanup :: "nat \<Rightarrow> debounce \<Rightarrow> debounce" where
  "cleanup t s = (case effect_timer s of None \<Rightarrow> s | Some i \<Rightarrow> clearTimeout t i s)"

text \<open>First render at time \<open>t\<close>: the effect runs once.\<close>

definition mount :: "nat \<Rightarrow> params \<Rightarrow> debounce" where
  "mount t p =
     effect t p \<lparr>cur = p, timers = [], next_id = 1, effect_timer = None, fetches = [], cleared = []\<rparr>"

text \<open>
  \<^verbatim>\<open>setParams\<close> at time \<open>t\<close>, followed by the render it causes. The effect depends on
  the three fields of \<open>params\<close>: when none of them differs from the previous render,
  neither the cleanup nor the effect runs; otherwise the cleanup of the previous effect
  runs first, then the effect.
\<close>

definition setParams :: "nat \<Rightarrow> params \<Rightarrow> debounce \<Rightarrow> debounce" where
  "setParams t p s =
     (let s1 = elapse t s
      in if p = cur s1 then s1
         else effect t p ((cleanup t s1)\<lparr>cur := p\<rparr>))"

fun changes :: "(nat \<times> params) list \<Rightarrow> debounce \<Rightarrow> debounce" where
  "changes [] s = s"
| "changes ((t, p) # cs) s = changes cs (setParams t p s)"

text \<open>
  What holds of the table in every state the page can reach: a pending timeout is the
  one of the last effect, and there is at most one.
\<close>

definition one_timer :: "debounce \<Rightarrow> bool" where
  "one_timer s =
     (length (timers s) \<le> 1 \<and> (\<forall>(i, due, p)\<in>set (timers s). effect_timer s = Some i))"

section \<open>Home page\<close>

record homeData =
  title :: string
  url :: string

text \<open>
  \<^verbatim>\<open>interface Item { data?: { title?: string }[]; links?: { href?: string }[] }\<close>:
  an absent field is \<open>None\<close>.
\<close>

record item =
  item_data :: "string option list option"
  item_links :: "string option list option"

text \<open>\<^verbatim>\<open>xs?.[0]?.field\<close>\<close>

definition first_field :: "string option list option \<Rightarrow> string option" where
  "first_field xs =
     (case xs of
        None \<Rightarrow> None
      | Some l \<Rightarrow> (case js_index l 0 of None \<Rightarrow> None | Some f \<Rightarrow> f))"

text \<open>\<^verbatim>\<open>v || d\<close> on an optional string: \<^verbatim>\<open>undefined\<close> and the empty string are falsy.\<close>

definition or_else :: "string option \<Rightarrow> string \<Rightarrow> string" where
  "or_else v d = (case v of None \<Rightarrow> d | Some s \<Rightarrow> if s = '''' then d else s)"

text \<open>What \<^verbatim>\<open>searchImages\<close> makes of the items of a response.\<close>

definition searchImages_items :: "item list \<Rightarrow> homeData list" where
  "searchImages_items items =
     filter (\<lambda>x. url x \<noteq> '''')
       (map (\<lambda>it. \<lparr>title = or_else (first_field (item_data it)) ''Untitled'',
                   url = or_else (first_field (item_links it)) ''''\<rparr>) items)"

text \<open>
  A JavaScript \<^verbatim>\<open>Map\<close>: the entries in insertion order. \<^verbatim>\<open>set\<close> on a key already
  present replaces the value where the key stands; on a new key it appends.
  \<^verbatim>\<open>new Map(entries)\<close> sets the entries one after the other.
\<close>

fun map_set :: "'k \<Rightarrow> 'v \<Rightarrow> ('k \<times> 'v) list \<Rightarrow> ('k \<times> 'v) list" where
  "map_set k v [] = [(k, v)]"
| "map_set k v ((k', v') # m) = (if k' = k then (k', v) # m else (k', v') # map_set k v m)"

definition new_Map :: "('k \<times> 'v) list \<Rightarrow> ('k \<times> 'v) list" where
  "new_Map entries = foldl (\<lambda>m (k, v). map_set k v m) [] entries"

definition map_values :: "('k \<times> 'v) list \<Rightarrow> 'v list" where
  "map_values m = map snd m"

text \<open>
  \<^verbatim>\<open>Array.from(new Map(results.flat().map((x) => [x.url, x])).values())\<close>
\<close>

definition unique_by_url :: "homeData list list \<Rightarrow> homeData list" where
  "unique_by_url results = map_values (new_Map (map (\<lambda>x. (url x, x)) (concat results)))"

text \<open>\<^verbatim>\<open>shuffle(...).slice(0, 15)\<close>, the value called \<^verbatim>\<open>merged\<close>.\<close>

definition merged :: "(nat \<Rightarrow> real) \<Rightarrow> homeData list list \<Rightarrow> homeData list" where
  "merged rnd results = slice0 15 (shuffle rnd (unique_by_url results))"

text \<open>\<^verbatim>\<open>Promise.all\<close>: the values in order, or a rejection as soon as one rejects.\<close>

fun promise_all :: "'a settled list \<Rightarrow> 'a list settled" where
  "promise_all [] = Resolved []"
| "promise_all (Rejected # rs) = Rejected"
| "promise_all (Resolved x # rs) =
     (case promise_all rs of Rejected \<Rightarrow> Rejected | Resolved xs \<Rightarrow> Resolved (x # xs))"

record home_state =
  home_data :: "homeData list"
  searchTerm :: string
  home_loading :: bool
  home_err :: string

definition loadRandom_message :: string where
  "loadRandom_message = ''Impossible de charger les images pour le moment.''"

definition surpriseMe_message :: string where
  "surpriseMe_message =
     ''Impossible de charger un nouveau set d'' @ [CHR 0xE2, CHR 0x80, CHR 0x99] @ ''images.''"

definition search_message :: string where
  "search_message =
     ''Recherche impossible. R'' @ [CHR 0xC3, CHR 0xA9] @ ''essaie avec un autre mot-cl''
     @ [CHR 0xC3, CHR 0xA9] @ ''.''"

text \<open>
  Each operation in two parts, as for the Mars loader: up to the \<^verbatim>\<open>await\<close>, and
  from the moment the awaited promise settles (the rest of \<^verbatim>\<open>try\<close>, or
  \<^verbatim>\<open>catch\<close>, then \<^verbatim>\<open>finally\<close>). \<open>rs\<close> are the settled searches, one per topic.
\<close>

definition loadRandom_call :: "home_state \<Rightarrow> home_state" where
  "loadRandom_call s = s\<lparr>home_loading := True, home_err := ''''\<rparr>"

definition loadRandom_settle ::
  "(nat \<Rightarrow> real) \<Rightarrow> homeData list settled list \<Rightarrow> home_state \<Rightarrow> home_state" where
  "loadRandom_settle rnd rs s =
     (case promise_all rs of
        Resolved results \<Rightarrow> s\<lparr>home_data := merged rnd results, home_loading := False\<rparr>
      | Rejected \<Rightarrow> s\<lparr>home_err := loadRandom_message, home_loading := False\<rparr>)"

definition surpriseMe_call :: "home_state \<Rightarrow> home_state" where
  "surpriseMe_call s = s\<lparr>home_loading := True, home_err := ''''\<rparr>"

definition surpriseMe_settle ::
  "(nat \<Rightarrow> real) \<Rightarrow> homeData list settled list \<Rightarrow> home_state \<Rightarrow> home_state" where
  "surpriseMe_settle rnd rs s =
     (case promise_all rs of
        Resolved results \<Rightarrow> s\<lparr>home_data := merged rnd results, home_loading := False\<rparr>
      | Rejected \<Rightarrow> s\<lparr>home_err := surpriseMe_message, home_loading := False\<rparr>)"

text \<open>
  \<^verbatim>\<open>handleSearchSubmit\<close>; \<open>q\<close> is the value of \<^verbatim>\<open>searchTerm.trim()\<close>. With an
  empty \<open>q\<close> the function returns before anything happens (\<open>None\<close>: no call is made).
\<close>

definition handleSearchSubmit_call :: "string \<Rightarrow> home_state \<Rightarrow> home_state option" where
  "handleSearchSubmit_call q s =
     (if q = '''' then None else Some (s\<lparr>home_loading := True, home_err := ''''\<rparr>))"

definition handleSearchSubmit_settle ::
  "(nat \<Rightarrow> real) \<Rightarrow> homeData list settled \<Rightarrow> home_state \<Rightarrow> home_state" where
  "handleSearchSubmit_settle rnd r s =
     (case r of
        Resolved items \<Rightarrow> s\<lparr>home_data := slice0 18 (shuffle rnd items), home_loading := False\<rparr>
      | Rejected \<Rightarrow> s\<lparr>home_err := search_message, home_loading := False\<rparr>)"

section \<open>EPIC page\<close>

record epic =
  epic_caption :: string
  epic_date :: string
  epic_image :: string
  epic_identifier :: string

definition buildEpicUrl :: "epic \<Rightarrow> string" where
  "buildEpicUrl it =
     (let d = slice0 10 (epic_date it);
          parts = split (CHR ''-'') d
      in ''https://epic.gsfc.nasa.gov/archive/natural/'' @ piece parts 0 @ ''/'' @ piece parts 1
         @ ''/'' @ piece parts 2 @ ''/png/'' @ epic_image it @ ''.png'')"

record epic_state =
  epic_data :: "epic list"
  epic_loading :: bool
  epic_error :: string
  index :: int

definition epic_error_message :: string where
  "epic_error_message = ''Une erreur est survenue lors du chargement des images EPIC.''"

definition hasData :: "epic_state \<Rightarrow> bool" where
  "hasData s = (length (epic_data s) > 0)"

text \<open>\<^verbatim>\<open>current = hasData ? data[index] : null\<close>\<close>

definition current :: "epic_state \<Rightarrow> epic option" where
  "current s = (if hasData s then js_index (epic_data s) (index s) else None)"

definition currentUrl :: "epic_state \<Rightarrow> string" where
  "currentUrl s = (case current s of Some c \<Rightarrow> buildEpicUrl c | None \<Rightarrow> '''')"

definition epic_fetchData_call :: "epic_state \<Rightarrow> epic_state" where
  "epic_fetchData_call s = s\<lparr>epic_loading := True, epic_error := ''''\<rparr>"

definition epic_fetchData_settle :: "epic list settled \<Rightarrow> epic_state \<Rightarrow> epic_state" where
  "epic_fetchData_settle r s =
     (case r of
        Resolved d \<Rightarrow> s\<lparr>epic_data := d, index := 0, epic_loading := False\<rparr>
      | Rejected \<Rightarrow> s\<lparr>epic_error := epic_error_message, epic_loading := False\<rparr>)"

text \<open>
  \<^verbatim>\<open>prev = () => hasData && setIndex((i) => (i - 1 + data.length) % data.length)\<close>, and
  \<^verbatim>\<open>next\<close> likewise; the arrow keys call the same two functions.
\<close>

definition prev :: "epic_state \<Rightarrow> epic_state" where
  "prev s =
     (if hasData s
      then (let n = int (length (epic_data s)) in s\<lparr>index := js_rem (index s - 1 + n) n\<rparr>)
      else s)"

definition "next" :: "epic_state \<Rightarrow> epic_state" where
  "next s =
     (if hasData s
      then (let n = int (length (epic_data s)) in s\<lparr>index := js_rem (index s + 1) n\<rparr>)
      else s)"

datatype epic_key = EpicArrowLeft | EpicArrowRight | EpicOtherKey

definition epic_onKey :: "epic_key \<Rightarrow> epic_state \<Rightarrow> epic_state" where
  "epic_onKey k s =
     (case k of EpicArrowLeft \<Rightarrow> prev s | EpicArrowRight \<Rightarrow> next s | EpicOtherKey \<Rightarrow> s)"

text \<open>
  The hero block: \<^verbatim>\<open>loading ? skeleton : hasData ? figure of current! : empty-state text\<close>.
  The figure reads \<^verbatim>\<open>current!.caption\<close>, which throws when \<^verbatim>\<open>current\<close> is undefined.
\<close>

definition epic_hero :: "epic_state \<Rightarrow> epic hero" where
  "epic_hero s =
     (if epic_loading s then Skeleton
      else if hasData s then (case current s of Some c \<Rightarrow> Hero c | None \<Rightarrow> RenderError)
      else EmptyState)"

section \<open>APOD page\<close>

datatype media_type = Image | Video

record apod =
  apod_copyright :: "string option"
  apod_date :: string
  apod_explanation :: string
  apod_hdurl :: "string option"
  apod_url :: string
  apod_title :: string
  apod_media_type :: media_type

record apod_state =
  apod_data :: "apod option"
  apod_loading :: bool
  apod_error :: string

definition apod_error_message :: string where
  "apod_error_message =
     ''Impossible de charger l'' @ [CHR 0xE2, CHR 0x80, CHR 0x99] @ ''APOD pour le moment.''"

definition apod_fetchData_call :: "apod_state \<Rightarrow> apod_state" where
  "apod_fetchData_call s = s\<lparr>apod_loading := True, apod_error := ''''\<rparr>"

definition apod_fetchData_settle :: "apod settled \<Rightarrow> apod_state \<Rightarrow> apod_state" where
  "apod_fetchData_settle r s =
     (case r of
        Resolved d \<Rightarrow> s\<lparr>apod_data := Some d, apod_loading := False\<rparr>
      | Rejected \<Rightarrow> s\<lparr>apod_error := apod_error_message, apod_loading := False\<rparr>)"

section \<open>Notions used to state the properties\<close>

text \<open>The distinct elements of a list, in the order of their first occurrences.\<close>

fun first_occurrences :: "'a list \<Rightarrow> 'a list" where
  "first_occurrences [] = []"
| "first_occurrences (x # xs) = x # removeAll x (first_occurrences xs)"

text \<open>
  A burst of changes of the query parameters, each given with its time: after a change
  at time \<open>t\<close> to \<open>p\<close>, every element of the list is a change (one of the three
  fields differs from the value before), not earlier than the one before and less
  than 500 time units after it.
\<close>

fun rapid :: "nat \<Rightarrow> params \<Rightarrow> (nat \<times> params) list \<Rightarrow> bool" where
  "rapid t p [] = True"
| "rapid t p ((t', p') # cs) = (t \<le> t' \<and> t' < t + 500 \<and> p' \<noteq> p \<and> rapid t' p' cs)"

text \<open>
  The timeouts such a burst supersedes: for each change of the list, the time of the
  change and the time the timeout of the change before it was due.
\<close>

fun superseded :: "nat \<Rightarrow> (nat \<times> params) list \<Rightarrow> (nat \<times> nat) list" where
  "superseded t [] = []"
| "superseded t ((t', p') # cs) = (t', t + 500) # superseded t' cs"

section \<open>Properties of shuffle\<close>

lemma rand_index_le: "0 \<le> r \<Longrightarrow> r < 1 \<Longrightarrow> rand_index r i \<le> i"
proof -
  assume r: "0 \<le> r" "r < 1"
  have "r * real (i + 1) < real (i + 1)"
    using r by (simp add: mult_less_cancel_right1)
  then have "\<lfloor>r * real (i + 1)\<rfloor> < int (i + 1)"
    by (simp add: floor_less_iff)
  then show ?thesis
    by (simp add: rand_index_def)
qed

lemma length_swap: "length (swap i j a) = length a"
  by (simp add: swap_def)

lemma mset_swap_js: "i < length a \<Longrightarrow> j < length a \<Longrightarrow> mset (swap i j a) = mset a"
  unfolding swap_def by (rule mset_swap)

lemma mset_shuffle_loop:
  "\<forall>i. 0 \<le> rnd i \<and> rnd i < 1 \<Longrightarrow> k < length a \<Longrightarrow> mset (shuffle_loop rnd k a) = mset a"
proof (induction k arbitrary: a)
  case 0
  show ?case by simp
next
  case (Suc k)
  let ?j = "rand_index (rnd (Suc k)) (Suc k)"
  have j: "?j \<le> Suc k"
    using Suc.prems(1) by (simp add: rand_index_le)
  have "mset (swap (Suc k) ?j a) = mset a"
    using j Suc.prems(2) by (intro mset_swap_js) auto
  moreover have "k < length (swap (Suc k) ?j a)"
    using Suc.prems(2) by (simp add: length_swap)
  ultimately show ?case
    using Suc.IH [OF Suc.prems(1)] by simp
qed

lemma mset_shuffle:
  assumes "\<forall>i. 0 \<le> rnd i \<and> rnd i < 1"
  shows "mset (shuffle rnd xs) = mset xs"
proof (cases xs)
  case Nil
  then show ?thesis by (simp add: shuffle_def)
next
  case (Cons x ys)
  then have "length xs - 1 < length xs" by simp
  then show ?thesis
    unfolding shuffle_def by (rule mset_shuffle_loop [OF assms])
qed

lemma length_shuffle:
  assumes "\<forall>i. 0 \<le> rnd i \<and> rnd i < 1"
  shows "length (shuffle rnd xs) = length xs"
  using mset_shuffle [OF assms, of xs] by (metis size_mset)

lemma swap_ref_eq: "swap_ref a i j h = h[a := swap i j (h ! a)]"
  by (simp add: swap_ref_def swap_def)

lemma shuffle_loop_ref_eq:
  "a < length h \<Longrightarrow> shuffle_loop_ref rnd k a h = h[a := shuffle_loop rnd k (h ! a)]"
proof (induction k arbitrary: h)
  case 0
  show ?case by simp
next
  case (Suc k)
  then show ?case by (simp add: swap_ref_eq)
qed

lemma shuffle_ref_eq: "shuffle_ref rnd arr h = (length h, h @ [shuffle rnd (h ! arr)])"
  by (simp add: shuffle_ref_def spread_copy_def shuffle_loop_ref_eq shuffle_def)

text \<open>
  In the source the product is a double and may be rounded before \<^verbatim>\<open>Math.floor\<close>;
  for a draw below \<open>1\<close> it stays below \<open>i + 1\<close>, so the index drawn lies in
  \<open>[0, i]\<close> there too, and every index in \<open>[0, i]\<close> is the index of some real draw.
\<close>

lemma rand_index_onto: "j \<le> i \<Longrightarrow> \<exists>r. 0 \<le> r \<and> r < 1 \<and> rand_index r i = j"
proof
  assume "j \<le> i"
  then show "0 \<le> real j / real (i + 1) \<and> real j / real (i + 1) < 1
      \<and> rand_index (real j / real (i + 1)) i = j"
    by (simp add: rand_index_def)
qed

section \<open>Properties of the Mars loader\<close>

lemma requestId_settle: "requestId (loadPhotos_settle tag r s) = requestId s"
  by (simp add: loadPhotos_settle_def Let_def split: settled.splits)

lemma requestId_call: "requestId (snd (loadPhotos_call s)) = Suc (requestId s)"
  by (simp add: loadPhotos_call_def Let_def)

lemma fst_call: "fst (loadPhotos_call s) = Suc (requestId s)"
  by (simp add: loadPhotos_call_def Let_def)

lemma settle_stale: "tag \<noteq> requestId s \<Longrightarrow> loadPhotos_settle tag r s = s"
  by (auto simp: loadPhotos_settle_def Let_def split: settled.splits)

lemma issued_increasing:
  "sorted_wrt (<) (issued es s) \<and> (\<forall>t\<in>set (issued es s). requestId s < t)
   \<and> requestId (run es s) = requestId s + length (issued es s)"
proof (induction es s rule: issued.induct)
  case (1 s)
  show ?case by simp
next
  case (2 es s)
  then show ?case
    by (auto simp: requestId_call fst_call)
next
  case (3 tag r es s)
  then show ?case
    by (simp add: requestId_settle)
qed

section \<open>Properties of the failure paths\<close>

lemma promise_all_Rejected: "Rejected \<in> set rs \<Longrightarrow> promise_all rs = Rejected"
  by (induction rs rule: promise_all.induct) auto

lemma settle_Rejected_latest:
  "loadPhotos_settle (requestId s) Rejected s = s\<lparr>err := mars_error_message, loading := False\<rparr>"
  by (simp add: loadPhotos_settle_def)

section \<open>Properties of the debounce\<close>

lemma one_timer_mount: "one_timer (mount t p)"
  by (simp add: one_timer_def mount_def effect_def setTimeout_def)

lemma one_timer_elapse: "one_timer s \<Longrightarrow> one_timer (elapse t s)"
proof -
  assume inv: "one_timer s"
  let ?rest = "filter (\<lambda>(j, due, p). \<not> due \<le> t) (timers s)"
  have "length ?rest \<le> length (timers s)"
    by (rule length_filter_le)
  also have "\<dots> \<le> 1"
    using inv by (simp add: one_timer_def)
  finally have len: "length ?rest \<le> 1" .
  have "\<forall>(i, due, p)\<in>set ?rest. effect_timer s = Some i"
    using inv by (auto simp: one_timer_def)
  with len show ?thesis
    by (simp add: one_timer_def elapse_def)
qed

lemma cleanup_empties:
  "one_timer s \<Longrightarrow> timers (cleanup t s) = [] \<and> fetches (cleanup t s) = fetches s"
proof (cases "timers s")
  case Nil
  then show ?thesis
    by (simp add: cleanup_def clearTimeout_def split: option.splits)
next
  case (Cons x xs)
  assume inv: "one_timer s"
  with Cons have xs: "xs = []"
    by (simp add: one_timer_def)
  obtain i due p where x: "x = (i, due, p)" by (cases x)
  from inv Cons have "effect_timer s = Some i"
    by (simp add: one_timer_def x)
  then show ?thesis
    by (simp add: cleanup_def clearTimeout_def Cons xs x)
qed

lemma setParams_fresh:
  assumes "one_timer s" and "p \<noteq> cur s"
  shows "timers (setParams t p s) = [(next_id s, t + 500, p)]
       \<and> effect_timer (setParams t p s) = Some (next_id s)
       \<and> cur (setParams t p s) = p
       \<and> fetches (setParams t p s) = fetches (elapse t s)"
proof -
  let ?s1 = "elapse t s"
  have "one_timer ?s1"
    using assms(1) by (rule one_timer_elapse)
  then have empty: "timers (cleanup t ?s1) = []" and same: "fetches (cleanup t ?s1) = fetches ?s1"
    using cleanup_empties [of ?s1 t] by simp_all
  have ids: "next_id (cleanup t ?s1) = next_id s"
    by (simp add: cleanup_def clearTimeout_def elapse_def split: option.splits)
  have other: "p \<noteq> cur ?s1"
    using assms(2) by (simp add: elapse_def)
  show ?thesis
    using other empty same ids by (simp add: setParams_def Let_def effect_def setTimeout_def)
qed

lemma one_timer_setParams: "one_timer s \<Longrightarrow> one_timer (setParams t p s)"
proof (cases "p = cur s")
  case True
  assume "one_timer s"
  then have "one_timer (elapse t s)" by (rule one_timer_elapse)
  moreover have "p = cur (elapse t s)"
    using True by (simp add: elapse_def)
  ultimately show ?thesis
    by (simp add: setParams_def Let_def)
next
  case False
  assume "one_timer s"
  from setParams_fresh [OF this False, of t] show ?thesis
    by (simp add: one_timer_def)
qed

lemma elapse_before_due:
  "timers s = [(i, due, p)] \<Longrightarrow> t < due \<Longrightarrow> elapse t s = s"
  by (simp add: elapse_def)

lemma elapse_after_due:
  "timers s = [(i, due, p)] \<Longrightarrow> due \<le> t \<Longrightarrow>
     timers (elapse t s) = [] \<and> fetches (elapse t s) = fetches s @ [(due, p)]
     \<and> cleared (elapse t s) = cleared s"
  by (simp add: elapse_def)

lemma setParams_pending:
  assumes "timers s = [(i, t + 500, p)]" and "effect_timer s = Some i" and "cur s = p"
    and "t \<le> t'" and "t' < t + 500" and "p' \<noteq> p"
  shows "timers (setParams t' p' s) = [(next_id s, t' + 500, p')]
       \<and> effect_timer (setParams t' p' s) = Some (next_id s)
       \<and> cur (setParams t' p' s) = p'
       \<and> fetches (setParams t' p' s) = fetches s
       \<and> cleared (setParams t' p' s) = cleared s @ [(t', t + 500)]"
proof -
  have "elapse t' s = s"
    using assms(1,5) by (rule elapse_before_due)
  then show ?thesis
    using assms(1,2,3,6)
    by (simp add: setParams_def cleanup_def clearTimeout_def effect_def setTimeout_def)
qed

lemma changes_rapid:
  assumes "timers s = [(i, t + 500, p)]" and "effect_timer s = Some i" and "cur s = p"
    and "rapid t p cs" and "last ((t, p) # cs) = (tn, pn)"
  shows "(\<exists>j. timers (changes cs s) = [(j, tn + 500, pn)])
       \<and> fetches (changes cs s) = fetches s
       \<and> cleared (changes cs s) = cleared s @ superseded t cs"
  using assms
proof (induction cs arbitrary: i t p s)
  case Nil
  then show ?case by simp
next
  case (Cons c cs)
  obtain t' p' where c: "c = (t', p')" by (cases c)
  from Cons.prems(4) have step: "t \<le> t'" "t' < t + 500" "p' \<noteq> p" and rest: "rapid t' p' cs"
    by (simp_all add: c)
  let ?s' = "setParams t' p' s"
  note s' = setParams_pending [OF Cons.prems(1,2,3) step]
  have "timers ?s' = [(next_id s, t' + 500, p')]" and "effect_timer ?s' = Some (next_id s)"
    and "cur ?s' = p'"
    using s' by simp_all
  moreover have "last ((t', p') # cs) = (tn, pn)"
    using Cons.prems(5) by (simp add: c)
  ultimately have "(\<exists>j. timers (changes cs ?s') = [(j, tn + 500, pn)])
       \<and> fetches (changes cs ?s') = fetches ?s'
       \<and> cleared (changes cs ?s') = cleared ?s' @ superseded t' cs"
    using rest by (intro Cons.IH)
  then show ?case
    using s' by (simp add: c)
qed

lemma rapid_take: "rapid t p cs \<Longrightarrow> rapid t p (take k cs)"
proof (induction t p cs arbitrary: k rule: rapid.induct)
  case (1 t p)
  show ?case by simp
next
  case (2 t p t' p' cs)
  then show ?case by (cases k) simp_all
qed

lemma superseded_early: "rapid t p cs \<Longrightarrow> (c, due) \<in> set (superseded t cs) \<Longrightarrow> c < due"
  by (induction t cs arbitrary: p rule: superseded.induct) auto

lemma length_superseded: "length (superseded t cs) = length cs"
  by (induction t cs rule: superseded.induct) auto

section \<open>Properties of the Map and of the merge\<close>

lemma set_first_occurrences: "set (first_occurrences xs) = set xs"
  by (induction xs) auto

lemma distinct_first_occurrences: "distinct (first_occurrences xs)"
  by (induction xs) (auto simp: distinct_removeAll)

lemma first_occurrences_snoc:
  "first_occurrences (xs @ [k]) =
     (if k \<in> set xs then first_occurrences xs else first_occurrences xs @ [k])"
  by (induction xs) (auto simp: set_first_occurrences)

lemma keys_map_set:
  "map fst (map_set k v m) = (if k \<in> set (map fst m) then map fst m else map fst m @ [k])"
  by (induction m) (auto simp: rev_image_eqI split: if_splits)

lemma set_map_set_subset: "set (map_set k v m) \<subseteq> insert (k, v) (set m)"
  by (induction m) (auto split: if_splits)

lemma set_map_set:
  "distinct (map fst m) \<Longrightarrow> set (map_set k v m) = insert (k, v) {e \<in> set m. fst e \<noteq> k}"
  by (induction m) (auto simp: rev_image_eqI split: if_splits)

lemma new_Map_snoc: "new_Map (es @ [(k, v)]) = map_set k v (new_Map es)"
  by (simp add: new_Map_def)

lemma keys_new_Map: "map fst (new_Map es) = first_occurrences (map fst es)"
proof (induction es rule: rev_induct)
  case Nil
  show ?case by (simp add: new_Map_def)
next
  case (snoc e es)
  obtain k v where e: "e = (k, v)" by (cases e)
  show ?case
    unfolding e new_Map_snoc keys_map_set snoc.IH
    by (simp add: first_occurrences_snoc set_first_occurrences)
qed

lemma distinct_keys_new_Map: "distinct (map fst (new_Map es))"
  by (simp add: keys_new_Map distinct_first_occurrences)

lemma entries_new_Map:
  "(k, x) \<in> set (new_Map (map (\<lambda>y. (f y, y)) ys)) \<Longrightarrow> x = last (filter (\<lambda>y. f y = k) ys)"
proof (induction ys arbitrary: k x rule: rev_induct)
  case Nil
  then show ?case by (simp add: new_Map_def)
next
  case (snoc y ys)
  have "new_Map (map (\<lambda>y. (f y, y)) (ys @ [y])) = map_set (f y) y (new_Map (map (\<lambda>y. (f y, y)) ys))"
    by (simp add: new_Map_snoc)
  with snoc.prems have "(k, x) = (f y, y) \<or> ((k, x) \<in> set (new_Map (map (\<lambda>y. (f y, y)) ys)) \<and> k \<noteq> f y)"
    by (auto simp: set_map_set [OF distinct_keys_new_Map])
  then show ?case
  proof
    assume "(k, x) = (f y, y)"
    then show ?thesis by simp
  next
    assume "(k, x) \<in> set (new_Map (map (\<lambda>y. (f y, y)) ys)) \<and> k \<noteq> f y"
    then show ?thesis
      using snoc.IH [of k x] by auto
  qed
qed

lemma key_of_entry:
  "(k, x) \<in> set (new_Map (map (\<lambda>y. (f y, y)) ys)) \<Longrightarrow> k = f x \<and> x \<in> set ys"
proof (induction ys arbitrary: k x rule: rev_induct)
  case Nil
  then show ?case by (simp add: new_Map_def)
next
  case (snoc y ys)
  have "new_Map (map (\<lambda>y. (f y, y)) (ys @ [y])) = map_set (f y) y (new_Map (map (\<lambda>y. (f y, y)) ys))"
    by (simp add: new_Map_snoc)
  with snoc.prems have "(k, x) = (f y, y) \<or> (k, x) \<in> set (new_Map (map (\<lambda>y. (f y, y)) ys))"
    using set_map_set_subset [of "f y" y "new_Map (map (\<lambda>y. (f y, y)) ys)"] by auto
  then show ?case
    using snoc.IH [of k x] by auto
qed

lemma urls_unique_by_url:
  "map url (unique_by_url results) = first_occurrences (map url (concat results))"
proof -
  let ?m = "new_Map (map (\<lambda>x. (url x, x)) (concat results))"
  have "map (url \<circ> snd) ?m = map fst ?m"
  proof (rule map_cong [OF refl])
    fix e assume "e \<in> set ?m"
    then have "(fst e, snd e) \<in> set ?m" by simp
    then show "(url \<circ> snd) e = fst e"
      using key_of_entry [of "fst e" "snd e" url "concat results"] by simp
  qed
  then have "map url (map snd ?m) = map fst ?m"
    by simp
  also have "\<dots> = first_occurrences (map fst (map (\<lambda>x. (url x, x)) (concat results)))"
    by (rule keys_new_Map)
  also have "\<dots> = first_occurrences (map url (concat results))"
    by (simp add: comp_def)
  finally show ?thesis
    by (simp add: unique_by_url_def map_values_def)
qed

lemma last_wins_unique_by_url:
  assumes "x \<in> set (unique_by_url results)"
  shows "x = last (filter (\<lambda>y. url y = url x) (concat results))"
proof -
  let ?m = "new_Map (map (\<lambda>x. (url x, x)) (concat results))"
  from assms obtain k where kx: "(k, x) \<in> set ?m"
    by (auto simp: unique_by_url_def map_values_def)
  then have "k = url x"
    using key_of_entry [of k x url "concat results"] by simp
  with kx show ?thesis
    using entries_new_Map [of k x url "concat results"] by simp
qed

lemma distinct_unique_by_url: "distinct (map url (unique_by_url results))"
  by (simp add: urls_unique_by_url distinct_first_occurrences)

lemma distinct_urls_shuffle:
  assumes "\<forall>i. 0 \<le> rnd i \<and> rnd i < 1" and "distinct (map url xs)"
  shows "distinct (map url (shuffle rnd xs))"
proof -
  have "mset (map url (shuffle rnd xs)) = mset (map url xs)"
    by (simp add: mset_shuffle [OF assms(1)])
  then show ?thesis
    using assms(2) mset_eq_imp_distinct_iff by blast
qed

lemma distinct_urls_slice0: "distinct (map url xs) \<Longrightarrow> distinct (map url (slice0 n xs))"
  by (simp add: slice0_def take_map [symmetric] distinct_take)

section \<open>Properties of the carousel arithmetic\<close>

lemma js_rem_nonneg: "0 \<le> a \<Longrightarrow> 0 < n \<Longrightarrow> js_rem a n = a mod n"
  by (cases "a = 0") (simp_all add: js_rem_def signed_modulo_int_def)

lemma js_index_Nil: "js_index [] i = None"
  by (simp add: js_index_def)

section \<open>Properties of split\<close>

lemma split_append_sep:
  "sep \<notin> set w \<Longrightarrow> split sep (w @ sep # rest) = w # split sep rest"
  by (induction w) auto

lemma split_no_sep: "sep \<notin> set w \<Longrightarrow> split sep w = [w]"
  by (induction w) auto

section \<open>C1: only the latest invocation of the Mars loader is applied\<close>

text \<open>
  C1. Along every history of the loader the tags handed out are strictly increasing,
  each is larger than the counter before the history, an invocation's tag is the
  counter's new value, and the counter always holds the latest tag handed out. When
  the network call of the invocation tagged \<open>tag\<close> settles (with a result or with a
  failure) and \<open>tag\<close> is not the latest tag, the state is left as it is: the photo
  list, the selected index and the error string do not change. So a change of one of
  the three made by a settling call implies its tag is the latest.
\<close>

theorem loadPhotos_stale_guard:
  "sorted_wrt (<) (issued es s)
   \<and> (\<forall>t\<in>set (issued es s). requestId s < t)
   \<and> requestId (run es s) = requestId s + length (issued es s)
   \<and> fst (loadPhotos_call s) = requestId s + 1
   \<and> requestId (snd (loadPhotos_call s)) = fst (loadPhotos_call s)
   \<and> (tag \<noteq> requestId s \<longrightarrow> loadPhotos_settle tag r s = s)
   \<and> (photos (loadPhotos_settle tag r s) \<noteq> photos s
        \<or> selected (loadPhotos_settle tag r s) \<noteq> selected s
        \<or> err (loadPhotos_settle tag r s) \<noteq> err s \<longrightarrow> tag = requestId s)"
proof -
  have stale: "tag \<noteq> requestId s \<longrightarrow> loadPhotos_settle tag r s = s"
    by (simp add: settle_stale)
  have only_latest: "photos (loadPhotos_settle tag r s) \<noteq> photos s
        \<or> selected (loadPhotos_settle tag r s) \<noteq> selected s
        \<or> err (loadPhotos_settle tag r s) \<noteq> err s \<longrightarrow> tag = requestId s"
  proof (cases "tag = requestId s")
    case True
    then show ?thesis by simp
  next
    case False
    then have "loadPhotos_settle tag r s = s" by (rule settle_stale)
    then show ?thesis by simp
  qed
  have tag1: "fst (loadPhotos_call s) = requestId s + 1"
    by (simp add: fst_call)
  have tag2: "requestId (snd (loadPhotos_call s)) = fst (loadPhotos_call s)"
    by (simp add: fst_call requestId_call)
  note inc = issued_increasing [of es s]
  have inc1: "sorted_wrt (<) (issued es s)"
    using inc by (rule conjunct1)
  have inc2: "\<forall>t\<in>set (issued es s). requestId s < t"
    using inc by (elim conjE)
  have inc3: "requestId (run es s) = requestId s + length (issued es s)"
    using inc by (elim conjE)
  show ?thesis
    by (intro conjI inc1 inc2 inc3 tag1 tag2 stale only_latest)
qed

theorem loadPhotos_stale_guard_witness:
  "issued [Invoke, Settle 1 Rejected, Invoke]
      \<lparr>photos = [], selected = None, loading = True, err = '''', requestId = 2\<rparr> = [3, 4]
   \<and> (1::nat) \<noteq> requestId \<lparr>photos = [], selected = None, loading = True, err = '''', requestId = 2\<rparr>
   \<and> loadPhotos_settle 1
        (Resolved (IsArray [\<lparr>photo_id = 7, img_src = ''a.jpg'', camera_name = ''FHAZ''\<rparr>]))
        \<lparr>photos = [], selected = None, loading = True, err = '''', requestId = 2\<rparr>
       = \<lparr>photos = [], selected = None, loading = True, err = '''', requestId = 2\<rparr>"
proof -
  have i: "issued [Invoke, Settle 1 Rejected, Invoke]
      \<lparr>photos = [], selected = None, loading = True, err = '''', requestId = 2\<rparr> = [3, 4]"
    by (simp add: loadPhotos_call_def loadPhotos_settle_def Let_def)
  have n: "(1::nat) \<noteq> requestId \<lparr>photos = [], selected = None, loading = True, err = '''', requestId = 2\<rparr>"
    by simp
  have "loadPhotos_settle 1
        (Resolved (IsArray [\<lparr>photo_id = 7, img_src = ''a.jpg'', camera_name = ''FHAZ''\<rparr>]))
        \<lparr>photos = [], selected = None, loading = True, err = '''', requestId = 2\<rparr>
       = \<lparr>photos = [], selected = None, loading = True, err = '''', requestId = 2\<rparr>"
    using loadPhotos_stale_guard [of "[Invoke, Settle 1 Rejected, Invoke]"
        "\<lparr>photos = [], selected = None, loading = True, err = '''', requestId = 2\<rparr>" 1
        "Resolved (IsArray [\<lparr>photo_id = 7, img_src = ''a.jpg'', camera_name = ''FHAZ''\<rparr>])"] n
    by blast
  with i n show ?thesis by blast
qed

section \<open>C2: a successful fetch replaces the list and resets the selection\<close>

text \<open>
  C2. When the network call of the latest invocation of the Mars loader resolves, the
  photo list becomes the fetched list and the selected index becomes the first
  position, or none when the fetched list is empty, whatever the list and the index
  were before; the current photo is then the first fetched photo, or none. When the
  EPIC fetch resolves, the list becomes the fetched list and the index becomes the
  first position; the current item is then the first fetched item, or none when the
  fetched list is empty.
\<close>

theorem fetch_success_resets_selection:
  "(tag = requestId s \<longrightarrow>
      photos (loadPhotos_settle tag (Resolved f) s) = fetched_list f
      \<and> selected (loadPhotos_settle tag (Resolved f) s)
          = (if fetched_list f = [] then None else Some 0)
      \<and> currentPhoto (loadPhotos_settle tag (Resolved f) s)
          = (case fetched_list f of [] \<Rightarrow> None | p # _ \<Rightarrow> Some p))
   \<and> epic_data (epic_fetchData_settle (Resolved d) e) = d
   \<and> index (epic_fetchData_settle (Resolved d) e) = 0
   \<and> current (epic_fetchData_settle (Resolved d) e) = (case d of [] \<Rightarrow> None | x # _ \<Rightarrow> Some x)"
proof -
  have mars: "tag = requestId s \<longrightarrow>
      photos (loadPhotos_settle tag (Resolved f) s) = fetched_list f
      \<and> selected (loadPhotos_settle tag (Resolved f) s)
          = (if fetched_list f = [] then None else Some 0)
      \<and> currentPhoto (loadPhotos_settle tag (Resolved f) s)
          = (case fetched_list f of [] \<Rightarrow> None | p # _ \<Rightarrow> Some p)"
    by (simp add: loadPhotos_settle_def Let_def currentPhoto_def js_index_def split: list.splits)
  have epic: "epic_data (epic_fetchData_settle (Resolved d) e) = d
      \<and> index (epic_fetchData_settle (Resolved d) e) = 0
      \<and> current (epic_fetchData_settle (Resolved d) e) = (case d of [] \<Rightarrow> None | x # _ \<Rightarrow> Some x)"
    by (simp add: epic_fetchData_settle_def current_def hasData_def js_index_def split: list.splits)
  from mars epic show ?thesis by blast
qed

theorem fetch_success_resets_selection_witness:
  "(1::nat) = requestId \<lparr>photos = [\<lparr>photo_id = 1, img_src = ''a'', camera_name = ''c''\<rparr>,
                                      \<lparr>photo_id = 2, img_src = ''b'', camera_name = ''c''\<rparr>],
                           selected = Some 1, loading = True, err = '''', requestId = 1\<rparr>
   \<and> selected (loadPhotos_settle 1 (Resolved (IsArray [\<lparr>photo_id = 9, img_src = ''z'', camera_name = ''c''\<rparr>]))
        \<lparr>photos = [\<lparr>photo_id = 1, img_src = ''a'', camera_name = ''c''\<rparr>,
                   \<lparr>photo_id = 2, img_src = ''b'', camera_name = ''c''\<rparr>],
         selected = Some 1, loading = True, err = '''', requestId = 1\<rparr>) = Some 0
   \<and> photos (loadPhotos_settle 1 (Resolved (IsArray [\<lparr>photo_id = 9, img_src = ''z'', camera_name = ''c''\<rparr>]))
        \<lparr>photos = [\<lparr>photo_id = 1, img_src = ''a'', camera_name = ''c''\<rparr>,
                   \<lparr>photo_id = 2, img_src = ''b'', camera_name = ''c''\<rparr>],
         selected = Some 1, loading = True, err = '''', requestId = 1\<rparr>)
       = [\<lparr>photo_id = 9, img_src = ''z'', camera_name = ''c''\<rparr>]"
  using fetch_success_resets_selection [of 1
      "\<lparr>photos = [\<lparr>photo_id = 1, img_src = ''a'', camera_name = ''c''\<rparr>,
                   \<lparr>photo_id = 2, img_src = ''b'', camera_name = ''c''\<rparr>],
         selected = Some 1, loading = True, err = '''', requestId = 1\<rparr>"
      "IsArray [\<lparr>photo_id = 9, img_src = ''z'', camera_name = ''c''\<rparr>]"]
  by (simp add: fetched_list_def)

section \<open>C3: a failed fetch keeps the data; a stale Mars failure sets no message\<close>

text \<open>
  C3 as stated fails on the Mars loader: when the network call of an invocation that
  is no longer the latest fails, the \<^verbatim>\<open>catch\<close> block returns before
  \<^verbatim>\<open>setErr\<close>. After two invocations and the failure of the first, the error string
  is still the empty string the second invocation set.
\<close>

theorem stale_failure_sets_no_message_counterexample:
  "err (run [Invoke, Invoke, Settle 1 Rejected] mars_init) = ''''
   \<and> err (run [Invoke, Invoke, Settle 1 Rejected] mars_init) \<noteq> mars_error_message"
  by (simp add: mars_init_def loadPhotos_call_def loadPhotos_settle_def Let_def
      mars_error_message_def)

text \<open>
  C3, amended. Every fetch operation is a total function of the state and of the way
  its network call settled: a failure is a branch of it, nothing propagates. On a
  failure the fetched data are what they were before the call (photo list and selected
  index; search results; EPIC list and index; APOD record), and the error string
  becomes the fixed message of the operation, with one exception: a failed Mars load
  whose tag is no longer the latest leaves the whole state as it is, error string
  included.
\<close>

theorem fetch_failure_keeps_data:
  "photos (loadPhotos_settle tag Rejected (snd (loadPhotos_call s))) = photos s
   \<and> selected (loadPhotos_settle tag Rejected (snd (loadPhotos_call s))) = selected s
   \<and> photos (loadPhotos_settle tag Rejected s) = photos s
   \<and> selected (loadPhotos_settle tag Rejected s) = selected s
   \<and> (tag = requestId s \<longrightarrow> err (loadPhotos_settle tag Rejected s) = mars_error_message)
   \<and> (tag \<noteq> requestId s \<longrightarrow> loadPhotos_settle tag Rejected s = s)
   \<and> (Rejected \<in> set rs \<longrightarrow>
        home_data (loadRandom_settle rnd rs (loadRandom_call h)) = home_data h
        \<and> home_err (loadRandom_settle rnd rs (loadRandom_call h)) = loadRandom_message
        \<and> home_data (surpriseMe_settle rnd rs (surpriseMe_call h)) = home_data h
        \<and> home_err (surpriseMe_settle rnd rs (surpriseMe_call h)) = surpriseMe_message)
   \<and> (q \<noteq> '''' \<longrightarrow>
        map_option (\<lambda>h'. home_data (handleSearchSubmit_settle rnd Rejected h'))
          (handleSearchSubmit_call q h) = Some (home_data h)
        \<and> map_option (\<lambda>h'. home_err (handleSearchSubmit_settle rnd Rejected h'))
          (handleSearchSubmit_call q h) = Some search_message)
   \<and> epic_data (epic_fetchData_settle Rejected (epic_fetchData_call e)) = epic_data e
   \<and> index (epic_fetchData_settle Rejected (epic_fetchData_call e)) = index e
   \<and> epic_error (epic_fetchData_settle Rejected (epic_fetchData_call e)) = epic_error_message
   \<and> apod_data (apod_fetchData_settle Rejected (apod_fetchData_call a)) = apod_data a
   \<and> apod_error (apod_fetchData_settle Rejected (apod_fetchData_call a)) = apod_error_message"
proof -
  have mars1: "photos (loadPhotos_settle tag Rejected (snd (loadPhotos_call s))) = photos s"
    and mars2: "selected (loadPhotos_settle tag Rejected (snd (loadPhotos_call s))) = selected s"
    and mars3: "photos (loadPhotos_settle tag Rejected s) = photos s"
    and mars4: "selected (loadPhotos_settle tag Rejected s) = selected s"
    by (simp_all add: loadPhotos_settle_def loadPhotos_call_def Let_def)
  have mars5: "tag = requestId s \<longrightarrow> err (loadPhotos_settle tag Rejected s) = mars_error_message"
    by (simp add: settle_Rejected_latest)
  have mars6: "tag \<noteq> requestId s \<longrightarrow> loadPhotos_settle tag Rejected s = s"
    by (simp add: settle_stale)
  have home: "Rejected \<in> set rs \<longrightarrow>
        home_data (loadRandom_settle rnd rs (loadRandom_call h)) = home_data h
        \<and> home_err (loadRandom_settle rnd rs (loadRandom_call h)) = loadRandom_message
        \<and> home_data (surpriseMe_settle rnd rs (surpriseMe_call h)) = home_data h
        \<and> home_err (surpriseMe_settle rnd rs (surpriseMe_call h)) = surpriseMe_message"
    by (simp add: promise_all_Rejected loadRandom_settle_def loadRandom_call_def
        surpriseMe_settle_def surpriseMe_call_def)
  have search: "q \<noteq> '''' \<longrightarrow>
        map_option (\<lambda>h'. home_data (handleSearchSubmit_settle rnd Rejected h'))
          (handleSearchSubmit_call q h) = Some (home_data h)
        \<and> map_option (\<lambda>h'. home_err (handleSearchSubmit_settle rnd Rejected h'))
          (handleSearchSubmit_call q h) = Some search_message"
    by (simp add: handleSearchSubmit_call_def handleSearchSubmit_settle_def)
  have epic1: "epic_data (epic_fetchData_settle Rejected (epic_fetchData_call e)) = epic_data e"
    and epic2: "index (epic_fetchData_settle Rejected (epic_fetchData_call e)) = index e"
    and epic3: "epic_error (epic_fetchData_settle Rejected (epic_fetchData_call e)) = epic_error_message"
    by (simp_all add: epic_fetchData_settle_def epic_fetchData_call_def)
  have apod1: "apod_data (apod_fetchData_settle Rejected (apod_fetchData_call a)) = apod_data a"
    and apod2: "apod_error (apod_fetchData_settle Rejected (apod_fetchData_call a)) = apod_error_message"
    by (simp_all add: apod_fetchData_settle_def apod_fetchData_call_def)
  show ?thesis
    by (intro conjI mars1 mars2 mars3 mars4 mars5 mars6 home search epic1 epic2 epic3 apod1 apod2)
qed

theorem fetch_failure_keeps_data_witness:
  "(2::nat) = requestId \<lparr>photos = [\<lparr>photo_id = 1, img_src = ''a'', camera_name = ''c''\<rparr>],
                          selected = Some 0, loading = True, err = '''', requestId = 2\<rparr>
   \<and> err (loadPhotos_settle 2 Rejected
        \<lparr>photos = [\<lparr>photo_id = 1, img_src = ''a'', camera_name = ''c''\<rparr>],
         selected = Some 0, loading = True, err = '''', requestId = 2\<rparr>) = mars_error_message
   \<and> Rejected \<in> set [Resolved [\<lparr>title = ''t'', url = ''u''\<rparr>], Rejected, Resolved []]
   \<and> home_err (loadRandom_settle (\<lambda>_. 0) [Resolved [\<lparr>title = ''t'', url = ''u''\<rparr>], Rejected, Resolved []]
        (loadRandom_call \<lparr>home_data = [\<lparr>title = ''x'', url = ''y''\<rparr>], searchTerm = '''',
                          home_loading = False, home_err = ''''\<rparr>)) = loadRandom_message
   \<and> home_data (loadRandom_settle (\<lambda>_. 0) [Resolved [\<lparr>title = ''t'', url = ''u''\<rparr>], Rejected, Resolved []]
        (loadRandom_call \<lparr>home_data = [\<lparr>title = ''x'', url = ''y''\<rparr>], searchTerm = '''',
                          home_loading = False, home_err = ''''\<rparr>)) = [\<lparr>title = ''x'', url = ''y''\<rparr>]
   \<and> ''moon'' \<noteq> ''''
   \<and> map_option (\<lambda>h'. home_err (handleSearchSubmit_settle (\<lambda>_. 0) Rejected h'))
          (handleSearchSubmit_call ''moon'' \<lparr>home_data = [\<lparr>title = ''x'', url = ''y''\<rparr>], searchTerm = '''',
                          home_loading = False, home_err = ''''\<rparr>) = Some search_message"
  using fetch_failure_keeps_data [of 2
      "\<lparr>photos = [\<lparr>photo_id = 1, img_src = ''a'', camera_name = ''c''\<rparr>],
         selected = Some 0, loading = True, err = '''', requestId = 2\<rparr>"
      "[Resolved [\<lparr>title = ''t'', url = ''u''\<rparr>], Rejected, Resolved []]" "\<lambda>_. 0"
      "\<lparr>home_data = [\<lparr>title = ''x'', url = ''y''\<rparr>], searchTerm = '''',
                          home_loading = False, home_err = ''''\<rparr>" "''moon''"]
  by (simp add: loadRandom_call_def)

section \<open>C4: a burst of parameter changes fires one fetch\<close>

text \<open>
  C4. Start in a state the page can reach (at most one timeout pending, the one of the
  last effect). Take a change of the query parameters at time \<open>t1\<close> to \<open>p1\<close>,
  followed by further changes \<open>cs\<close>, each less than 500 time units after the one
  before; let the last change of the burst be at \<open>tn\<close> to \<open>pn\<close>. The first change
  fires nothing by itself. At every moment of the burst no fetch has fired since the
  first change, and the table of pending timeouts holds exactly one: the one of the
  latest change, due 500 after it; the timeouts of all earlier changes have left the
  table without firing. Up to any time before \<open>tn + 500\<close> no fetch fires. Once the
  clock has reached \<open>tn + 500\<close>, exactly one fetch has fired since the first change:
  at \<open>tn + 500\<close>, with the parameters \<open>pn\<close>; no timeout is pending after it. Every
  change after the first removed the pending timeout of the change before it from the
  table, and did so before that timeout was due.
\<close>

theorem debounce_fires_once_after_last_change:
  assumes "one_timer s0" and "p1 \<noteq> cur s0" and "rapid t1 p1 cs"
    and "last ((t1, p1) # cs) = (tn, pn)" and "tn + 500 \<le> T"
  shows "fetches (setParams t1 p1 s0) = fetches (elapse t1 s0)
       \<and> (\<forall>k\<le>length cs.
             fetches (changes (take k cs) (setParams t1 p1 s0)) = fetches (setParams t1 p1 s0)
             \<and> (\<exists>j. timers (changes (take k cs) (setParams t1 p1 s0))
                      = [(j, fst (last ((t1, p1) # take k cs)) + 500,
                             snd (last ((t1, p1) # take k cs)))]))
       \<and> fetches (changes cs (setParams t1 p1 s0)) = fetches (setParams t1 p1 s0)
       \<and> (\<forall>T'<tn + 500. fetches (elapse T' (changes cs (setParams t1 p1 s0)))
                          = fetches (setParams t1 p1 s0))
       \<and> fetches (elapse T (changes cs (setParams t1 p1 s0)))
            = fetches (setParams t1 p1 s0) @ [(tn + 500, pn)]
       \<and> timers (elapse T (changes cs (setParams t1 p1 s0))) = []
       \<and> cleared (elapse T (changes cs (setParams t1 p1 s0)))
            = cleared (setParams t1 p1 s0) @ superseded t1 cs
       \<and> length (superseded t1 cs) = length cs
       \<and> (\<forall>(c, due)\<in>set (superseded t1 cs). c < due)"
proof -
  let ?s1 = "setParams t1 p1 s0"
  let ?sN = "changes cs ?s1"
  note first = setParams_fresh [OF assms(1,2), of t1]
  have t1: "timers ?s1 = [(next_id s0, t1 + 500, p1)]"
    and e1: "effect_timer ?s1 = Some (next_id s0)" and c1: "cur ?s1 = p1"
    using first by simp_all
  have a: "fetches ?s1 = fetches (elapse t1 s0)"
    using first by simp
  have b: "\<forall>k\<le>length cs.
             fetches (changes (take k cs) ?s1) = fetches ?s1
             \<and> (\<exists>j. timers (changes (take k cs) ?s1)
                      = [(j, fst (last ((t1, p1) # take k cs)) + 500,
                             snd (last ((t1, p1) # take k cs)))])"
  proof (intro allI impI)
    fix k
    have "rapid t1 p1 (take k cs)"
      using assms(3) by (rule rapid_take)
    moreover have "last ((t1, p1) # take k cs)
        = (fst (last ((t1, p1) # take k cs)), snd (last ((t1, p1) # take k cs)))"
      by simp
    ultimately show "fetches (changes (take k cs) ?s1) = fetches ?s1
             \<and> (\<exists>j. timers (changes (take k cs) ?s1)
                      = [(j, fst (last ((t1, p1) # take k cs)) + 500,
                             snd (last ((t1, p1) # take k cs)))])"
      using changes_rapid [OF t1 e1 c1] by blast
  qed
  note burst = changes_rapid [OF t1 e1 c1 assms(3,4)]
  from burst obtain j where pending: "timers ?sN = [(j, tn + 500, pn)]"
    by blast
  have quiet: "fetches ?sN = fetches ?s1" and clr: "cleared ?sN = cleared ?s1 @ superseded t1 cs"
    using burst by simp_all
  have c: "\<forall>T'<tn + 500. fetches (elapse T' ?sN) = fetches ?s1"
    using pending quiet by (simp add: elapse_before_due)
  note fire = elapse_after_due [OF pending assms(5)]
  have d: "fetches (elapse T ?sN) = fetches ?s1 @ [(tn + 500, pn)]"
    using fire quiet by simp
  have e: "timers (elapse T ?sN) = []"
    using fire by simp
  have f: "cleared (elapse T ?sN) = cleared ?s1 @ superseded t1 cs"
    using fire clr by simp
  have g: "length (superseded t1 cs) = length cs"
    by (rule length_superseded)
  have h: "\<forall>(c, due)\<in>set (superseded t1 cs). c < due"
    using superseded_early [OF assms(3)] by auto
  show ?thesis
    by (intro conjI a b quiet c d e f g h)
qed

theorem debounce_fires_once_after_last_change_witness:
  "one_timer (mount 0 \<lparr>sol = 1000, camera = ''FHAZ'', rover = Curiosity\<rparr>)
   \<and> \<lparr>sol = 1001, camera = ''FHAZ'', rover = Curiosity\<rparr>
      \<noteq> cur (mount 0 \<lparr>sol = 1000, camera = ''FHAZ'', rover = Curiosity\<rparr>)
   \<and> rapid 100 \<lparr>sol = 1001, camera = ''FHAZ'', rover = Curiosity\<rparr>
        [(300, \<lparr>sol = 1002, camera = ''FHAZ'', rover = Curiosity\<rparr>),
         (700, \<lparr>sol = 1002, camera = ''MAST'', rover = Curiosity\<rparr>)]
   \<and> fetches (elapse 1200
        (changes [(300, \<lparr>sol = 1002, camera = ''FHAZ'', rover = Curiosity\<rparr>),
                  (700, \<lparr>sol = 1002, camera = ''MAST'', rover = Curiosity\<rparr>)]
           (setParams 100 \<lparr>sol = 1001, camera = ''FHAZ'', rover = Curiosity\<rparr>
              (mount 0 \<lparr>sol = 1000, camera = ''FHAZ'', rover = Curiosity\<rparr>))))
       = [(1200, \<lparr>sol = 1002, camera = ''MAST'', rover = Curiosity\<rparr>)]
   \<and> timers (elapse 1200
        (changes [(300, \<lparr>sol = 1002, camera = ''FHAZ'', rover = Curiosity\<rparr>),
                  (700, \<lparr>sol = 1002, camera = ''MAST'', rover = Curiosity\<rparr>)]
           (setParams 100 \<lparr>sol = 1001, camera = ''FHAZ'', rover = Curiosity\<rparr>
              (mount 0 \<lparr>sol = 1000, camera = ''FHAZ'', rover = Curiosity\<rparr>)))) = []
   \<and> cleared (elapse 1200
        (changes [(300, \<lparr>sol = 1002, camera = ''FHAZ'', rover = Curiosity\<rparr>),
                  (700, \<lparr>sol = 1002, camera = ''MAST'', rover = Curiosity\<rparr>)]
           (setParams 100 \<lparr>sol = 1001, camera = ''FHAZ'', rover = Curiosity\<rparr>
              (mount 0 \<lparr>sol = 1000, camera = ''FHAZ'', rover = Curiosity\<rparr>))))
       = [(100, 500), (300, 600), (700, 800)]"
proof -
  let ?p0 = "\<lparr>sol = 1000, camera = ''FHAZ'', rover = Curiosity\<rparr>"
  let ?p1 = "\<lparr>sol = 1001, camera = ''FHAZ'', rover = Curiosity\<rparr>"
  let ?p2 = "\<lparr>sol = 1002, camera = ''FHAZ'', rover = Curiosity\<rparr>"
  let ?p3 = "\<lparr>sol = 1002, camera = ''MAST'', rover = Curiosity\<rparr>"
  have h0: "one_timer (mount 0 ?p0)"
    by (simp add: one_timer_def mount_def effect_def setTimeout_def)
  have h1: "?p1 \<noteq> cur (mount 0 ?p0)"
    by (simp add: mount_def effect_def setTimeout_def)
  have h2: "rapid 100 ?p1 [(300, ?p2), (700, ?p3)]"
    by simp
  have h3: "last ((100, ?p1) # [(300, ?p2), (700, ?p3)]) = (700, ?p3)"
    by simp
  have h4: "(700::nat) + 500 \<le> 1200"
    by simp
  have s1: "fetches (setParams 100 ?p1 (mount 0 ?p0)) = []"
    "cleared (setParams 100 ?p1 (mount 0 ?p0)) = [(100, 500)]"
    by (simp_all add: setParams_def mount_def elapse_def cleanup_def clearTimeout_def
        effect_def setTimeout_def)
  note t = debounce_fires_once_after_last_change [OF h0 h1 h2 h3 h4]
  have f: "fetches (elapse 1200 (changes [(300, ?p2), (700, ?p3)] (setParams 100 ?p1 (mount 0 ?p0))))
       = [(1200, ?p3)]"
    using t [THEN conjunct2, THEN conjunct2, THEN conjunct2, THEN conjunct2, THEN conjunct1]
    unfolding s1 by simp
  have e: "timers (elapse 1200 (changes [(300, ?p2), (700, ?p3)] (setParams 100 ?p1 (mount 0 ?p0))))
       = []"
    using t [THEN conjunct2, THEN conjunct2, THEN conjunct2, THEN conjunct2, THEN conjunct2,
        THEN conjunct1] .
  have c: "cleared (elapse 1200 (changes [(300, ?p2), (700, ?p3)] (setParams 100 ?p1 (mount 0 ?p0))))
       = [(100, 500), (300, 600), (700, 800)]"
    using t [THEN conjunct2, THEN conjunct2, THEN conjunct2, THEN conjunct2, THEN conjunct2,
        THEN conjunct2, THEN conjunct1]
    unfolding s1 by simp
  show ?thesis
    by (intro conjI h0 h1 h2 f e c)
qed

section \<open>C5: the merge keeps the first position and the last record of a URL\<close>

text \<open>
  C5 as stated fails: \<^verbatim>\<open>new Map(entries)\<close> sets the entries one after the other,
  and setting a key that is present replaces its value. Of two entries with the same
  URL and different titles, coming from two topics, the merge retains the later one.
\<close>

theorem merge_retains_later_title_counterexample:
  "unique_by_url [[\<lparr>title = ''A'', url = ''u''\<rparr>], [\<lparr>title = ''B'', url = ''u''\<rparr>]]
     = [\<lparr>title = ''B'', url = ''u''\<rparr>]
   \<and> map title (merged (\<lambda>_. 0) [[\<lparr>title = ''A'', url = ''u''\<rparr>], [\<lparr>title = ''B'', url = ''u''\<rparr>]])
     = [''B'']"
  by (simp add: merged_def unique_by_url_def new_Map_def map_values_def slice0_def shuffle_def)

text \<open>
  C5, amended. The merge flattens the per-topic lists in topic order and keeps one
  entry per URL: the URLs stand in the order of their first occurrences, and the entry
  kept for a URL is the last entry of the flattened list with that URL. It then
  permutes the unique entries (no entry added, dropped or repeated, whatever
  \<^verbatim>\<open>Math.random()\<close> draws in \<open>[0, 1)\<close>) and keeps the first 15 of them at most. Both
  the initial load and the re-roll display that list.
\<close>

theorem merge_first_position_last_record:
  assumes "\<forall>i. 0 \<le> rnd i \<and> rnd i < 1"
  shows "map url (unique_by_url results) = first_occurrences (map url (concat results))
       \<and> (\<forall>x\<in>set (unique_by_url results).
             x = last (filter (\<lambda>y. url y = url x) (concat results)))
       \<and> mset (shuffle rnd (unique_by_url results)) = mset (unique_by_url results)
       \<and> merged rnd results = take 15 (shuffle rnd (unique_by_url results))
       \<and> length (merged rnd results) \<le> 15
       \<and> set (merged rnd results) \<subseteq> set (unique_by_url results)
       \<and> (promise_all rs = Resolved results \<longrightarrow>
             home_data (loadRandom_settle rnd rs h) = merged rnd results
             \<and> home_data (surpriseMe_settle rnd rs h) = merged rnd results)"
proof -
  have urls: "map url (unique_by_url results) = first_occurrences (map url (concat results))"
    by (rule urls_unique_by_url)
  have records: "\<forall>x\<in>set (unique_by_url results).
             x = last (filter (\<lambda>y. url y = url x) (concat results))"
    using last_wins_unique_by_url by blast
  have perm: "mset (shuffle rnd (unique_by_url results)) = mset (unique_by_url results)"
    by (rule mset_shuffle [OF assms])
  have cut: "merged rnd results = take 15 (shuffle rnd (unique_by_url results))"
    by (simp add: merged_def slice0_def)
  have len: "length (merged rnd results) \<le> 15"
    by (simp add: cut)
  have "set (merged rnd results) \<subseteq> set (shuffle rnd (unique_by_url results))"
    unfolding cut by (rule set_take_subset)
  also have "\<dots> = set (unique_by_url results)"
    using perm by (rule mset_eq_setD)
  finally have sub: "set (merged rnd results) \<subseteq> set (unique_by_url results)" .
  have shown: "promise_all rs = Resolved results \<longrightarrow>
             home_data (loadRandom_settle rnd rs h) = merged rnd results
             \<and> home_data (surpriseMe_settle rnd rs h) = merged rnd results"
    by (simp add: loadRandom_settle_def surpriseMe_settle_def)
  show ?thesis
    by (intro conjI urls records perm cut len sub shown)
qed

theorem merge_first_position_last_record_witness:
  "(\<forall>i::nat. (0::real) \<le> 0 \<and> (0::real) < 1)
   \<and> unique_by_url [[\<lparr>title = ''A'', url = ''u''\<rparr>, \<lparr>title = ''C'', url = ''w''\<rparr>],
                     [\<lparr>title = ''B'', url = ''u''\<rparr>]]
        = [\<lparr>title = ''B'', url = ''u''\<rparr>, \<lparr>title = ''C'', url = ''w''\<rparr>]
   \<and> first_occurrences [''u'', ''w'', ''u''] = [''u'', ''w'']
   \<and> merged (\<lambda>_. 0) [[\<lparr>title = ''A'', url = ''u''\<rparr>, \<lparr>title = ''C'', url = ''w''\<rparr>],
                       [\<lparr>title = ''B'', url = ''u''\<rparr>]]
        = [\<lparr>title = ''C'', url = ''w''\<rparr>, \<lparr>title = ''B'', url = ''u''\<rparr>]
   \<and> promise_all [Resolved [\<lparr>title = ''A'', url = ''u''\<rparr>, \<lparr>title = ''C'', url = ''w''\<rparr>],
                   Resolved [\<lparr>title = ''B'', url = ''u''\<rparr>]]
        = Resolved [[\<lparr>title = ''A'', url = ''u''\<rparr>, \<lparr>title = ''C'', url = ''w''\<rparr>],
                    [\<lparr>title = ''B'', url = ''u''\<rparr>]]
   \<and> home_data (loadRandom_settle (\<lambda>_. 0)
          [Resolved [\<lparr>title = ''A'', url = ''u''\<rparr>, \<lparr>title = ''C'', url = ''w''\<rparr>],
           Resolved [\<lparr>title = ''B'', url = ''u''\<rparr>]]
          \<lparr>home_data = [], searchTerm = '''', home_loading = True, home_err = ''''\<rparr>)
        = [\<lparr>title = ''C'', url = ''w''\<rparr>, \<lparr>title = ''B'', url = ''u''\<rparr>]"
proof -
  let ?results = "[[\<lparr>title = ''A'', url = ''u''\<rparr>, \<lparr>title = ''C'', url = ''w''\<rparr>],
                     [\<lparr>title = ''B'', url = ''u''\<rparr>]]"
  have r: "\<forall>i::nat. 0 \<le> (\<lambda>_. 0::real) i \<and> (\<lambda>_. 0::real) i < 1"
    by simp
  have u: "unique_by_url ?results = [\<lparr>title = ''B'', url = ''u''\<rparr>, \<lparr>title = ''C'', url = ''w''\<rparr>]"
    by (simp add: unique_by_url_def new_Map_def map_values_def)
  have m: "merged (\<lambda>_. 0) ?results = [\<lparr>title = ''C'', url = ''w''\<rparr>, \<lparr>title = ''B'', url = ''u''\<rparr>]"
    by (simp add: merged_def u slice0_def shuffle_def swap_def rand_index_def)
  have p: "promise_all [Resolved [\<lparr>title = ''A'', url = ''u''\<rparr>, \<lparr>title = ''C'', url = ''w''\<rparr>],
                   Resolved [\<lparr>title = ''B'', url = ''u''\<rparr>]] = Resolved ?results"
    by simp
  show ?thesis
    using merge_first_position_last_record [OF r, of ?results
        "[Resolved [\<lparr>title = ''A'', url = ''u''\<rparr>, \<lparr>title = ''C'', url = ''w''\<rparr>],
          Resolved [\<lparr>title = ''B'', url = ''u''\<rparr>]]"
        "\<lparr>home_data = [], searchTerm = '''', home_loading = True, home_err = ''''\<rparr>"] u m p
    by simp
qed

section \<open>C6: distinct URLs after a merge, not after a free-text search\<close>

text \<open>
  C6 as stated fails on the free-text search: \<^verbatim>\<open>handleSearchSubmit\<close> shuffles and
  cuts the items of the one search it makes and does not pass them through a
  \<^verbatim>\<open>Map\<close>. A response with two items that link to the same image is displayed with
  both.
\<close>

theorem search_shows_repeated_url_counterexample:
  "map url (home_data (handleSearchSubmit_settle (\<lambda>_. 0)
      (Resolved (searchImages_items
         [\<lparr>item_data = Some [Some ''A''], item_links = Some [Some ''u'']\<rparr>,
          \<lparr>item_data = Some [Some ''B''], item_links = Some [Some ''u'']\<rparr>]))
      \<lparr>home_data = [], searchTerm = ''moon'', home_loading = True, home_err = ''''\<rparr>))
     = [''u'', ''u'']"
  by (simp add: handleSearchSubmit_settle_def searchImages_items_def first_field_def
      js_index_def or_else_def slice0_def shuffle_def swap_def rand_index_def)

text \<open>
  C6, amended. The list displayed by the initial random-topic load and by the re-roll
  has no two entries with the same URL. The list displayed by a free-text search is
  the first 18 entries at most of the shuffled items of the search; its URLs are
  pairwise distinct when those of the items are.
\<close>

theorem merged_urls_distinct:
  assumes "\<forall>i. 0 \<le> rnd i \<and> rnd i < 1"
  shows "distinct (map url (merged rnd results))
       \<and> (promise_all rs = Resolved results \<longrightarrow>
             distinct (map url (home_data (loadRandom_settle rnd rs h)))
             \<and> distinct (map url (home_data (surpriseMe_settle rnd rs h))))
       \<and> home_data (handleSearchSubmit_settle rnd (Resolved items) h) = take 18 (shuffle rnd items)
       \<and> (distinct (map url items) \<longrightarrow>
             distinct (map url (home_data (handleSearchSubmit_settle rnd (Resolved items) h))))"
proof -
  have merged: "distinct (map url (merged rnd results))"
    unfolding merged_def
    by (intro distinct_urls_slice0 distinct_urls_shuffle [OF assms] distinct_unique_by_url)
  then have shown: "promise_all rs = Resolved results \<longrightarrow>
             distinct (map url (home_data (loadRandom_settle rnd rs h)))
             \<and> distinct (map url (home_data (surpriseMe_settle rnd rs h)))"
    by (simp add: loadRandom_settle_def surpriseMe_settle_def)
  have search: "home_data (handleSearchSubmit_settle rnd (Resolved items) h) = take 18 (shuffle rnd items)"
    by (simp add: handleSearchSubmit_settle_def slice0_def)
  have search_distinct: "distinct (map url items) \<longrightarrow>
             distinct (map url (home_data (handleSearchSubmit_settle rnd (Resolved items) h)))"
  proof
    assume "distinct (map url items)"
    then have "distinct (map url (slice0 18 (shuffle rnd items)))"
      by (intro distinct_urls_slice0 distinct_urls_shuffle [OF assms])
    then show "distinct (map url (home_data (handleSearchSubmit_settle rnd (Resolved items) h)))"
      by (simp add: handleSearchSubmit_settle_def)
  qed
  show ?thesis
    by (intro conjI merged shown search search_distinct)
qed

theorem merged_urls_distinct_witness:
  "(\<forall>i::nat. (0::real) \<le> 0 \<and> (0::real) < 1)
   \<and> promise_all [Resolved [\<lparr>title = ''A'', url = ''u''\<rparr>, \<lparr>title = ''C'', url = ''w''\<rparr>],
                   Resolved [\<lparr>title = ''B'', url = ''u''\<rparr>]]
        = Resolved [[\<lparr>title = ''A'', url = ''u''\<rparr>, \<lparr>title = ''C'', url = ''w''\<rparr>],
                    [\<lparr>title = ''B'', url = ''u''\<rparr>]]
   \<and> distinct (map url (home_data (surpriseMe_settle (\<lambda>_. 0)
          [Resolved [\<lparr>title = ''A'', url = ''u''\<rparr>, \<lparr>title = ''C'', url = ''w''\<rparr>],
           Resolved [\<lparr>title = ''B'', url = ''u''\<rparr>]]
          \<lparr>home_data = [], searchTerm = ''moon'', home_loading = True, home_err = ''''\<rparr>)))
   \<and> distinct (map url [\<lparr>title = ''A'', url = ''u''\<rparr>, \<lparr>title = ''C'', url = ''w''\<rparr>])
   \<and> distinct (map url (home_data (handleSearchSubmit_settle (\<lambda>_. 0)
          (Resolved [\<lparr>title = ''A'', url = ''u''\<rparr>, \<lparr>title = ''C'', url = ''w''\<rparr>])
          \<lparr>home_data = [], searchTerm = ''moon'', home_loading = True, home_err = ''''\<rparr>)))"
proof -
  have r: "\<forall>i::nat. 0 \<le> (\<lambda>_. 0::real) i \<and> (\<lambda>_. 0::real) i < 1"
    by simp
  have p: "promise_all [Resolved [\<lparr>title = ''A'', url = ''u''\<rparr>, \<lparr>title = ''C'', url = ''w''\<rparr>],
                   Resolved [\<lparr>title = ''B'', url = ''u''\<rparr>]]
        = Resolved [[\<lparr>title = ''A'', url = ''u''\<rparr>, \<lparr>title = ''C'', url = ''w''\<rparr>],
                    [\<lparr>title = ''B'', url = ''u''\<rparr>]]"
    by simp
  have d: "distinct (map url [\<lparr>title = ''A'', url = ''u''\<rparr>, \<lparr>title = ''C'', url = ''w''\<rparr>])"
    by simp
  note t = merged_urls_distinct [OF r,
        of "[[\<lparr>title = ''A'', url = ''u''\<rparr>, \<lparr>title = ''C'', url = ''w''\<rparr>],
             [\<lparr>title = ''B'', url = ''u''\<rparr>]]"
           "[Resolved [\<lparr>title = ''A'', url = ''u''\<rparr>, \<lparr>title = ''C'', url = ''w''\<rparr>],
             Resolved [\<lparr>title = ''B'', url = ''u''\<rparr>]]"
           "\<lparr>home_data = [], searchTerm = ''moon'', home_loading = True, home_err = ''''\<rparr>"
           "[\<lparr>title = ''A'', url = ''u''\<rparr>, \<lparr>title = ''C'', url = ''w''\<rparr>]"]
  have a: "distinct (map url (home_data (surpriseMe_settle (\<lambda>_. 0)
          [Resolved [\<lparr>title = ''A'', url = ''u''\<rparr>, \<lparr>title = ''C'', url = ''w''\<rparr>],
           Resolved [\<lparr>title = ''B'', url = ''u''\<rparr>]]
          \<lparr>home_data = [], searchTerm = ''moon'', home_loading = True, home_err = ''''\<rparr>)))"
    using t [THEN conjunct2, THEN conjunct1, THEN mp, OF p] by (rule conjunct2)
  have b: "distinct (map url (home_data (handleSearchSubmit_settle (\<lambda>_. 0)
          (Resolved [\<lparr>title = ''A'', url = ''u''\<rparr>, \<lparr>title = ''C'', url = ''w''\<rparr>])
          \<lparr>home_data = [], searchTerm = ''moon'', home_loading = True, home_err = ''''\<rparr>)))"
    using t [THEN conjunct2, THEN conjunct2, THEN conjunct2, THEN mp, OF d] .
  show ?thesis
    by (intro conjI r p d a b)
qed

section \<open>C7: previous and next wrap around modulo the length\<close>

text \<open>
  C7. With a non-empty list of length \<open>n\<close> and the index at \<open>i\<close>, \<open>0 \<le> i < n\<close>:
  the left arrow key and the previous button of the Mars lightbox, and \<open>prev\<close> (button
  and left arrow key) of the EPIC carousel, move the index to \<open>(i - 1 + n) mod n\<close>; the
  right arrow key, the next button and \<open>next\<close> move it to \<open>(i + 1) mod n\<close>. The new
  index is again in \<open>[0, n)\<close>; previous from \<open>0\<close> gives \<open>n - 1\<close>, next from \<open>n - 1\<close>
  gives \<open>0\<close>.
\<close>

theorem carousel_wraps_modulo_length:
  assumes "selected s = Some i" and "0 \<le> i" and "i < int (length (photos s))"
    and "index e = j" and "0 \<le> j" and "j < int (length (epic_data e))"
  shows "selected (onKey ArrowLeft s) = Some ((i - 1 + int (length (photos s))) mod int (length (photos s)))
       \<and> selected (onKey ArrowRight s) = Some ((i + 1) mod int (length (photos s)))
       \<and> selected (lightbox_prev s) = selected (onKey ArrowLeft s)
       \<and> selected (lightbox_next s) = selected (onKey ArrowRight s)
       \<and> index (prev e) = (j - 1 + int (length (epic_data e))) mod int (length (epic_data e))
       \<and> index (next e) = (j + 1) mod int (length (epic_data e))
       \<and> epic_onKey EpicArrowLeft e = prev e \<and> epic_onKey EpicArrowRight e = next e
       \<and> (i = 0 \<longrightarrow> selected (onKey ArrowLeft s) = Some (int (length (photos s)) - 1))
       \<and> (i = int (length (photos s)) - 1 \<longrightarrow> selected (onKey ArrowRight s) = Some 0)
       \<and> (j = 0 \<longrightarrow> index (prev e) = int (length (epic_data e)) - 1)
       \<and> (j = int (length (epic_data e)) - 1 \<longrightarrow> index (next e) = 0)
       \<and> (\<forall>k \<in> {onKey ArrowLeft s, onKey ArrowRight s, lightbox_prev s, lightbox_next s}.
             \<exists>i'. selected k = Some i' \<and> 0 \<le> i' \<and> i' < int (length (photos k)))
       \<and> 0 \<le> index (prev e) \<and> index (prev e) < int (length (epic_data (prev e)))
       \<and> 0 \<le> index (next e) \<and> index (next e) < int (length (epic_data (next e)))"
proof -
  let ?n = "int (length (photos s))"
  let ?m = "int (length (epic_data e))"
  have n: "0 < ?n" and m: "0 < ?m"
    using assms by linarith+
  have ne: "photos s \<noteq> []" and "hasData e"
    using n m by (auto simp: hasData_def)
  have "lightbox_open s"
    using assms(1-3) by (simp add: lightbox_open_def js_index_def)
  have rem_prev: "js_rem (i - 1 + ?n) ?n = (i - 1 + ?n) mod ?n"
    using assms(2) n by (intro js_rem_nonneg) linarith+
  have rem_next: "js_rem (i + 1) ?n = (i + 1) mod ?n"
    using assms(2) n by (intro js_rem_nonneg) linarith+
  have erem_prev: "js_rem (j - 1 + ?m) ?m = (j - 1 + ?m) mod ?m"
    using assms(5) m by (intro js_rem_nonneg) linarith+
  have erem_next: "js_rem (j + 1) ?m = (j + 1) mod ?m"
    using assms(5) m by (intro js_rem_nonneg) linarith+
  have left: "selected (onKey ArrowLeft s) = Some ((i - 1 + ?n) mod ?n)"
    using assms(1) ne rem_prev by (simp add: onKey_def Let_def)
  have right: "selected (onKey ArrowRight s) = Some ((i + 1) mod ?n)"
    using assms(1) ne rem_next by (simp add: onKey_def Let_def)
  have bprev: "selected (lightbox_prev s) = selected (onKey ArrowLeft s)"
    using \<open>lightbox_open s\<close> assms(1) ne by (simp add: lightbox_prev_def onKey_def Let_def)
  have bnext: "selected (lightbox_next s) = selected (onKey ArrowRight s)"
    using \<open>lightbox_open s\<close> assms(1) ne by (simp add: lightbox_next_def onKey_def Let_def)
  have eprev: "index (prev e) = (j - 1 + ?m) mod ?m"
    using assms(4) \<open>hasData e\<close> erem_prev by (simp add: prev_def Let_def)
  have enext: "index (next e) = (j + 1) mod ?m"
    using assms(4) \<open>hasData e\<close> erem_next by (simp add: next_def Let_def)
  have keys: "epic_onKey EpicArrowLeft e = prev e" "epic_onKey EpicArrowRight e = next e"
    by (simp_all add: epic_onKey_def)
  have first: "i = 0 \<longrightarrow> selected (onKey ArrowLeft s) = Some (?n - 1)"
    using left n by (simp add: zmod_minus1)
  have last: "i = ?n - 1 \<longrightarrow> selected (onKey ArrowRight s) = Some 0"
    using right by simp
  have efirst: "j = 0 \<longrightarrow> index (prev e) = ?m - 1"
    using eprev m by (simp add: zmod_minus1)
  have elast: "j = ?m - 1 \<longrightarrow> index (next e) = 0"
    using enext by simp
  have lens: "photos (onKey ArrowLeft s) = photos s" "photos (onKey ArrowRight s) = photos s"
    "photos (lightbox_prev s) = photos s" "photos (lightbox_next s) = photos s"
    "epic_data (prev e) = epic_data e" "epic_data (next e) = epic_data e"
    by (simp_all add: onKey_def lightbox_prev_def lightbox_next_def prev_def next_def Let_def)
  have bounds: "\<forall>k \<in> {onKey ArrowLeft s, onKey ArrowRight s, lightbox_prev s, lightbox_next s}.
             \<exists>i'. selected k = Some i' \<and> 0 \<le> i' \<and> i' < int (length (photos k))"
    using n by (simp add: lens left right bprev bnext)
  have ebounds: "0 \<le> index (prev e)" "index (prev e) < int (length (epic_data (prev e)))"
    "0 \<le> index (next e)" "index (next e) < int (length (epic_data (next e)))"
    using m by (simp_all add: lens eprev enext)
  show ?thesis
    by (intro conjI left right bprev bnext eprev enext keys first last efirst elast bounds ebounds)
qed

theorem carousel_wraps_modulo_length_witness:
  "selected (onKey ArrowLeft
      \<lparr>photos = [\<lparr>photo_id = 1, img_src = ''a'', camera_name = ''c''\<rparr>,
                 \<lparr>photo_id = 2, img_src = ''b'', camera_name = ''c''\<rparr>,
                 \<lparr>photo_id = 3, img_src = ''d'', camera_name = ''c''\<rparr>],
       selected = Some 0, loading = False, err = '''', requestId = 1\<rparr>) = Some 2
   \<and> index (next
      \<lparr>epic_data = [\<lparr>epic_caption = ''x'', epic_date = ''2019-05-30 01:09:10'',
                      epic_image = ''epic_1b_20190530011359'', epic_identifier = ''20190530011358''\<rparr>,
                    \<lparr>epic_caption = ''y'', epic_date = ''2019-05-30 02:57:27'',
                      epic_image = ''epic_1b_20190530030216'', epic_identifier = ''20190530030215''\<rparr>],
       epic_loading = False, epic_error = '''', index = 1\<rparr>) = 0"
proof -
  let ?s = "\<lparr>photos = [\<lparr>photo_id = 1, img_src = ''a'', camera_name = ''c''\<rparr>,
                 \<lparr>photo_id = 2, img_src = ''b'', camera_name = ''c''\<rparr>,
                 \<lparr>photo_id = 3, img_src = ''d'', camera_name = ''c''\<rparr>],
       selected = Some 0, loading = False, err = '''', requestId = 1\<rparr>"
  let ?e = "\<lparr>epic_data = [\<lparr>epic_caption = ''x'', epic_date = ''2019-05-30 01:09:10'',
                      epic_image = ''epic_1b_20190530011359'', epic_identifier = ''20190530011358''\<rparr>,
                    \<lparr>epic_caption = ''y'', epic_date = ''2019-05-30 02:57:27'',
                      epic_image = ''epic_1b_20190530030216'', epic_identifier = ''20190530030215''\<rparr>],
       epic_loading = False, epic_error = '''', index = 1\<rparr>"
  have h: "selected ?s = Some 0" "(0::int) \<le> 0" "0 < int (length (photos ?s))"
    "index ?e = 1" "(0::int) \<le> 1" "1 < int (length (epic_data ?e))"
    by simp_all
  show ?thesis
    using carousel_wraps_modulo_length [OF h] by simp
qed

section \<open>C8: the EPIC image URL\<close>

text \<open>
  C8. \<open>buildEpicUrl\<close> is a function of the item alone. For an item whose date starts
  with four digits, a hyphen, two digits, a hyphen and two digits (anything may follow),
  the first ten characters of the date split at the hyphens into exactly these three
  groups, and the URL is the archive prefix, the three groups separated by slashes,
  \<open>/png/\<close>, the image identifier and \<open>.png\<close>.
\<close>

theorem buildEpicUrl_well_formed:
  assumes "epic_date it = yyyy @ ''-'' @ mm @ ''-'' @ dd @ rest"
    and "length yyyy = 4" and "length mm = 2" and "length dd = 2"
    and "set (yyyy @ mm @ dd) \<subseteq> set ''0123456789''"
  shows "split (CHR ''-'') (slice0 10 (epic_date it)) = [yyyy, mm, dd]
       \<and> buildEpicUrl it = ''https://epic.gsfc.nasa.gov/archive/natural/'' @ yyyy @ ''/'' @ mm
            @ ''/'' @ dd @ ''/png/'' @ epic_image it @ ''.png''"
proof -
  have no_hyphen: "CHR ''-'' \<notin> set yyyy" "CHR ''-'' \<notin> set mm" "CHR ''-'' \<notin> set dd"
    using assms(5) by auto
  have "slice0 10 (epic_date it) = yyyy @ CHR ''-'' # mm @ CHR ''-'' # dd"
    using assms(1-4) by (simp add: slice0_def)
  then have parts: "split (CHR ''-'') (slice0 10 (epic_date it)) = [yyyy, mm, dd]"
    using no_hyphen by (simp add: split_append_sep split_no_sep)
  have "buildEpicUrl it = ''https://epic.gsfc.nasa.gov/archive/natural/'' @ yyyy @ ''/'' @ mm
            @ ''/'' @ dd @ ''/png/'' @ epic_image it @ ''.png''"
    unfolding buildEpicUrl_def Let_def parts by (simp add: piece_def js_index_def)
  with parts show ?thesis by (rule conjI)
qed

theorem buildEpicUrl_well_formed_witness:
  "buildEpicUrl \<lparr>epic_caption = ''Earth'', epic_date = ''2019-05-30 01:09:10'',
                 epic_image = ''epic_1b_20190530011359'', epic_identifier = ''20190530011358''\<rparr>
     = ''https://epic.gsfc.nasa.gov/archive/natural/2019/05/30/png/epic_1b_20190530011359.png''"
proof -
  let ?it = "\<lparr>epic_caption = ''Earth'', epic_date = ''2019-05-30 01:09:10'',
                 epic_image = ''epic_1b_20190530011359'', epic_identifier = ''20190530011358''\<rparr>"
  have h: "epic_date ?it = ''2019'' @ ''-'' @ ''05'' @ ''-'' @ ''30'' @ '' 01:09:10''"
    "length ''2019'' = 4" "length ''05'' = 2" "length ''30'' = 2"
    "set (''2019'' @ ''05'' @ ''30'') \<subseteq> set ''0123456789''"
    by simp_all
  show ?thesis
    using buildEpicUrl_well_formed [OF h] by simp
qed

section \<open>C9: an empty list renders the empty state\<close>

text \<open>
  C9. With an empty photo list the current photo of the Mars page is none for every
  value of the selected index, the lightbox is closed, and the hero block is the
  empty-state text once loading is over (the skeleton while loading). With an empty
  EPIC list the current item is none for every index, the derived URL is empty, and
  the hero block is the empty-state text once loading is over; it never reads a field
  of a missing item. Right after a fetch that resolved to an empty list both pages show
  the empty state.
\<close>

theorem empty_list_renders_empty_state:
  "(photos s = [] \<longrightarrow>
      currentPhoto s = None \<and> \<not> lightbox_open s
      \<and> mars_hero s = (if loading s then Skeleton else EmptyState))
   \<and> (epic_data e = [] \<longrightarrow>
      current e = None \<and> currentUrl e = ''''
      \<and> epic_hero e = (if epic_loading e then Skeleton else EmptyState))
   \<and> (fetched_list f = [] \<longrightarrow> mars_hero (loadPhotos_settle (requestId s) (Resolved f) s) = EmptyState)
   \<and> epic_hero (epic_fetchData_settle (Resolved []) e) = EmptyState"
proof -
  have mars: "photos s = [] \<longrightarrow>
      currentPhoto s = None \<and> \<not> lightbox_open s
      \<and> mars_hero s = (if loading s then Skeleton else EmptyState)"
    by (simp add: currentPhoto_def lightbox_open_def mars_hero_def js_index_Nil
        split: option.splits)
  have epic: "epic_data e = [] \<longrightarrow>
      current e = None \<and> currentUrl e = ''''
      \<and> epic_hero e = (if epic_loading e then Skeleton else EmptyState)"
    by (simp add: current_def currentUrl_def epic_hero_def hasData_def)
  have mars_fetch: "fetched_list f = [] \<longrightarrow>
      mars_hero (loadPhotos_settle (requestId s) (Resolved f) s) = EmptyState"
    by (simp add: loadPhotos_settle_def mars_hero_def currentPhoto_def js_index_Nil)
  have epic_fetch: "epic_hero (epic_fetchData_settle (Resolved []) e) = EmptyState"
    by (simp add: epic_fetchData_settle_def epic_hero_def hasData_def)
  show ?thesis
    by (intro conjI mars epic mars_fetch epic_fetch)
qed

theorem empty_list_renders_empty_state_witness:
  "photos \<lparr>photos = [], selected = Some 3, loading = False, err = '''', requestId = 1\<rparr> = []
   \<and> currentPhoto \<lparr>photos = [], selected = Some 3, loading = False, err = '''', requestId = 1\<rparr> = None
   \<and> mars_hero \<lparr>photos = [], selected = Some 3, loading = False, err = '''', requestId = 1\<rparr> = EmptyState
   \<and> epic_data \<lparr>epic_data = [], epic_loading = False, epic_error = '''', index = 5\<rparr> = []
   \<and> epic_hero \<lparr>epic_data = [], epic_loading = False, epic_error = '''', index = 5\<rparr> = EmptyState
   \<and> fetched_list NotArray = []
   \<and> mars_hero (loadPhotos_settle 1 (Resolved NotArray)
        \<lparr>photos = [], selected = Some 3, loading = False, err = '''', requestId = 1\<rparr>) = EmptyState"
  using empty_list_renders_empty_state
    [of "\<lparr>photos = [], selected = Some 3, loading = False, err = '''', requestId = 1\<rparr>"
        "\<lparr>epic_data = [], epic_loading = False, epic_error = '''', index = 5\<rparr>" NotArray]
  by (simp add: fetched_list_def)

section \<open>C10: shuffle returns a permutation and works on a copy\<close>

text \<open>
  C10. Whatever \<^verbatim>\<open>Math.random()\<close> draws in \<open>[0, 1)\<close>, the list \<open>shuffle\<close> returns
  has the elements of its input with their multiplicities, hence its length. Over the
  store, the result is a new reference, every array that existed before the call (the
  argument among them) holds what it held, and the new array is the shuffled copy of
  the argument. So the Shuffle button of the Mars page and the random permutation of
  the Home page neither add, drop nor duplicate an entry.
\<close>

theorem shuffle_permutation_of_copy:
  assumes "\<forall>i. 0 \<le> rnd i \<and> rnd i < 1" and "arr < length h"
  shows "mset (shuffle rnd xs) = mset xs
       \<and> length (shuffle rnd xs) = length xs
       \<and> (case shuffle_ref rnd arr h of
            (a, h') \<Rightarrow> a = length h \<and> a \<noteq> arr \<and> length h' = Suc (length h)
                     \<and> (\<forall>q<length h. h' ! q = h ! q)
                     \<and> h' ! a = shuffle rnd (h ! arr)
                     \<and> mset (h' ! a) = mset (h ! arr))
       \<and> mset (photos (shuffleOrder rnd s)) = mset (photos s)
       \<and> mset (shuffle rnd (unique_by_url results)) = mset (unique_by_url results)"
proof -
  note perm = mset_shuffle [OF assms(1)]
  have "mset (shuffle rnd xs) = mset xs"
    by (rule perm)
  moreover have "length (shuffle rnd xs) = length xs"
    by (rule length_shuffle [OF assms(1)])
  moreover have "case shuffle_ref rnd arr h of
            (a, h') \<Rightarrow> a = length h \<and> a \<noteq> arr \<and> length h' = Suc (length h)
                     \<and> (\<forall>q<length h. h' ! q = h ! q)
                     \<and> h' ! a = shuffle rnd (h ! arr)
                     \<and> mset (h' ! a) = mset (h ! arr)"
    using assms(2) by (simp add: shuffle_ref_eq nth_append perm)
  moreover have "mset (photos (shuffleOrder rnd s)) = mset (photos s)"
    by (simp add: shuffleOrder_def perm)
  moreover have "mset (shuffle rnd (unique_by_url results)) = mset (unique_by_url results)"
    by (rule perm)
  ultimately show ?thesis by blast
qed

theorem shuffle_permutation_of_copy_witness:
  "(\<forall>i::nat. (0::real) \<le> 1 / 2 \<and> (1 / 2 ::real) < 1)
   \<and> (0::nat) < length [[1, 2, 3, 4::nat]]
   \<and> shuffle (\<lambda>_. 1 / 2) [1, 2, 3, 4::nat] = [1, 4, 2, 3]
   \<and> mset (shuffle (\<lambda>_. 1 / 2) [1, 2, 3, 4::nat]) = mset [1, 2, 3, 4]
   \<and> shuffle_ref (\<lambda>_. 1 / 2) 0 [[1, 2, 3, 4::nat]] = (1, [[1, 2, 3, 4], [1, 4, 2, 3]])"
proof -
  have r: "\<forall>i::nat. 0 \<le> (\<lambda>_. 1 / 2 ::real) i \<and> (\<lambda>_. 1 / 2 ::real) i < 1"
    by simp
  have a: "(0::nat) < length [[1, 2, 3, 4::nat]]"
    by simp
  have e: "shuffle (\<lambda>_. 1 / 2) [1, 2, 3, 4::nat] = [1, 4, 2, 3]"
    by code_simp
  show ?thesis
    using shuffle_permutation_of_copy [OF r a, of "[1, 2, 3, 4]" mars_init "[]"] e
    by (simp add: shuffle_ref_eq)
qed

end
